theory Spec2Isabelle
  imports Main "HOL-Library.Multiset" "HOL-Library.Product_Lexorder"
begin

section \<open>Strings and numbers of the host language\<close>

text \<open>
  Strings are lists of 8-bit characters read as ASCII text. The white space removed by
  \<open>trim\<close> and skipped by \<open>Number.parseInt\<close> is the ASCII part of the language's
  white space and line terminators (TAB, LF, VT, FF, CR, SPACE); case mapping acts on the
  ASCII letters. Field values are strings, as an HTML form delivers them.
\<close>

definition isWhiteSpace :: "char \<Rightarrow> bool" where
  "isWhiteSpace c = (c \<in> set [CHR 0x09, CHR 0x0A, CHR 0x0B, CHR 0x0C, CHR 0x0D, CHR 0x20])"

definition trim :: "string \<Rightarrow> string" where
  "trim s = rev (dropWhile isWhiteSpace (rev (dropWhile isWhiteSpace s)))"

definition upperChar :: "char \<Rightarrow> char" where
  "upperChar c = (case map_of (zip ''abcdefghijklmnopqrstuvwxyz'' ''ABCDEFGHIJKLMNOPQRSTUVWXYZ'') c of
                    Some u \<Rightarrow> u | None \<Rightarrow> c)"

definition lowerChar :: "char \<Rightarrow> char" where
  "lowerChar c = (case map_of (zip ''ABCDEFGHIJKLMNOPQRSTUVWXYZ'' ''abcdefghijklmnopqrstuvwxyz'') c of
                    Some l \<Rightarrow> l | None \<Rightarrow> c)"

definition toUpperCase :: "string \<Rightarrow> string" where
  "toUpperCase s = map upperChar s"

definition toLowerCase :: "string \<Rightarrow> string" where
  "toLowerCase s = map lowerChar s"

definition isDigit :: "char \<Rightarrow> bool" where
  "isDigit c = (c \<in> set ''0123456789'')"

definition digitVal :: "char \<Rightarrow> nat" where
  "digitVal c = (case map_of (zip ''0123456789'' [0, 1, 2, 3, 4, 5, 6, 7, 8, 9]) c of
                   Some d \<Rightarrow> d | None \<Rightarrow> 0)"

text \<open>
  The number a run of decimal digits denotes. \<open>Number.parseInt\<close> returns a double; the
  model keeps the exact integer, which is the same number below \<open>2 ^ 53\<close>. From there on
  the double is the integer rounded, so that different numerals can give one number; the
  range in which an index of a question is exact is \<open>safeIndices\<close> below.
\<close>

definition parseDigits :: "string \<Rightarrow> nat" where
  "parseDigits ds = foldl (\<lambda>n c. 10 * n + digitVal c) 0 ds"

text \<open>A number of the host language as far as the program reads one: NaN or an integer.\<close>

datatype jsnum = NaN | Finite int

definition isNaN :: "jsnum \<Rightarrow> bool" where
  "isNaN x = (case x of NaN \<Rightarrow> True | Finite _ \<Rightarrow> False)"

text \<open>Comparisons with NaN are false.\<close>

definition numLess :: "jsnum \<Rightarrow> int \<Rightarrow> bool" where
  "numLess x k = (case x of NaN \<Rightarrow> False | Finite n \<Rightarrow> n < k)"

definition numGreater :: "jsnum \<Rightarrow> int \<Rightarrow> bool" where
  "numGreater x k = (case x of NaN \<Rightarrow> False | Finite n \<Rightarrow> k < n)"

definition numLessEq :: "jsnum \<Rightarrow> int \<Rightarrow> bool" where
  "numLessEq x k = (case x of NaN \<Rightarrow> False | Finite n \<Rightarrow> n \<le> k)"

text \<open>
  \<open>Number.parseInt(s, 10)\<close> on a string: leading white space is skipped, one sign is read,
  then the longest run of digits; with no digit the result is NaN.
\<close>

definition parseInt10 :: "string \<Rightarrow> jsnum" where
  "parseInt10 s =
     (let t = dropWhile isWhiteSpace s;
          neg = (case t of [] \<Rightarrow> False | c # _ \<Rightarrow> c = CHR ''-'');
          u = (case t of [] \<Rightarrow> [] | c # r \<Rightarrow> if c = CHR ''-'' \<or> c = CHR ''+'' then r else t);
          ds = takeWhile isDigit u
      in if ds = [] then NaN
         else Finite (if neg then - int (parseDigits ds) else int (parseDigits ds)))"

text \<open>\<open>Number.parseInt\<close> of a field that may be absent: \<open>undefined\<close> reads as NaN.\<close>

definition parseIntField :: "string option \<Rightarrow> jsnum" where
  "parseIntField v = (case v of None \<Rightarrow> NaN | Some s \<Rightarrow> parseInt10 s)"

text \<open>The decimal numeral of a number, as a template literal prints it.\<close>

definition digitChar :: "nat \<Rightarrow> char" where
  "digitChar d = ''0123456789'' ! (d mod 10)"

fun showNat :: "nat \<Rightarrow> string" where
  "showNat n = (if n < 10 then [digitChar n] else showNat (n div 10) @ [digitChar (n mod 10)])"

declare showNat.simps [simp del]

section \<open>The field-name patterns of \<open>parseStoryQuestions\<close>\<close>

fun stripPrefix :: "string \<Rightarrow> string \<Rightarrow> string option" where
  "stripPrefix [] s = Some s"
| "stripPrefix (p # ps) [] = None"
| "stripPrefix (p # ps) (c # cs) = (if p = c then stripPrefix ps cs else None)"

text \<open>
  \<open>(\d+)\<close> followed by a literal that starts with a bracket: the greedy run of digits,
  which must not be empty, and what is left.
\<close>

definition matchDigits :: "string \<Rightarrow> (string \<times> string) option" where
  "matchDigits s = (if takeWhile isDigit s = [] then None
                    else Some (takeWhile isDigit s, dropWhile isDigit s))"

text \<open>
  \<open>/^questions\[(\d+)\]\[name\]$/\<close>: the captured digits when the whole field name matches.
\<close>

definition questionFieldMatch :: "string \<Rightarrow> string \<Rightarrow> string option" where
  "questionFieldMatch name field =
     (case stripPrefix ''questions['' field of
        None \<Rightarrow> None
      | Some r \<Rightarrow>
          (case matchDigits r of
             None \<Rightarrow> None
           | Some (ds, r') \<Rightarrow> if r' = ''][''  @ name @ '']'' then Some ds else None))"

definition promptMatch :: "string \<Rightarrow> string option" where
  "promptMatch field = questionFieldMatch ''prompt'' field"

definition correctMatch :: "string \<Rightarrow> string option" where
  "correctMatch field = questionFieldMatch ''correctIndex'' field"

definition audioMatch :: "string \<Rightarrow> string option" where
  "audioMatch field = questionFieldMatch ''audio'' field"

text \<open>\<open>/^questions\[(\d+)\]\[answers\]\[(\d+)\]$/\<close>: both captures.\<close>

definition answerMatch :: "string \<Rightarrow> (string \<times> string) option" where
  "answerMatch field =
     (case stripPrefix ''questions['' field of
        None \<Rightarrow> None
      | Some r \<Rightarrow>
          (case matchDigits r of
             None \<Rightarrow> None
           | Some (ds, r') \<Rightarrow>
               (case stripPrefix ''][answers]['' r' of
                  None \<Rightarrow> None
                | Some r'' \<Rightarrow>
                    (case matchDigits r'' of
                       None \<Rightarrow> None
                     | Some (es, r''') \<Rightarrow> if r''' = '']'' then Some (ds, es) else None))))"

section \<open>Reconstructing the questions of a story form\<close>

record upload_file =
  fieldname :: string
  filename :: string
  path :: string

record question =
  prompt :: string
  answers :: "string list"
  correctIndex :: jsnum
  file_q :: "upload_file option"

text \<open>
  \<open>questionMap\<close> is a \<open>Map\<close>: its entries keep the order in which their keys were first
  set, so it is an association list with one entry per key.
\<close>

type_synonym question_map = "(nat \<times> question) list"

definition emptyQuestion :: question where
  "emptyQuestion = \<lparr>prompt = [], answers = [[], [], [], []], correctIndex = Finite 0, file_q = None\<rparr>"

definition ensureQuestion :: "nat \<Rightarrow> question_map \<Rightarrow> question_map" where
  "ensureQuestion i m = (case map_of m i of None \<Rightarrow> m @ [(i, emptyQuestion)] | Some _ \<Rightarrow> m)"

text \<open>An assignment to a field of the object that \<open>ensureQuestion\<close> returned.\<close>

fun modifyQuestion :: "nat \<Rightarrow> (question \<Rightarrow> question) \<Rightarrow> question_map \<Rightarrow> question_map" where
  "modifyQuestion i f [] = []"
| "modifyQuestion i f ((k, q) # m) =
     (if k = i then (k, f q) # m else (k, q) # modifyQuestion i f m)"

text \<open>One round of the loop over \<open>Object.entries(body)\<close>.\<close>

definition bodyField :: "string \<times> string \<Rightarrow> question_map \<Rightarrow> question_map" where
  "bodyField fv m =
     (case promptMatch (fst fv) of
        Some ds \<Rightarrow>
          modifyQuestion (parseDigits ds) (\<lambda>q. q\<lparr>prompt := trim (snd fv)\<rparr>)
            (ensureQuestion (parseDigits ds) m)
      | None \<Rightarrow>
          (case correctMatch (fst fv) of
             Some ds \<Rightarrow>
               modifyQuestion (parseDigits ds) (\<lambda>q. q\<lparr>correctIndex := parseInt10 (snd fv)\<rparr>)
                 (ensureQuestion (parseDigits ds) m)
           | None \<Rightarrow>
               (case answerMatch (fst fv) of
                  Some (ds, es) \<Rightarrow>
                    (if parseDigits es < 4
                     then modifyQuestion (parseDigits ds)
                            (\<lambda>q. q\<lparr>answers := (answers q)[parseDigits es := trim (snd fv)]\<rparr>)
                            (ensureQuestion (parseDigits ds) m)
                     else ensureQuestion (parseDigits ds) m)
                | None \<Rightarrow> m)))"

text \<open>One round of the loop over the uploaded files.\<close>

definition fileField :: "upload_file \<Rightarrow> question_map \<Rightarrow> question_map" where
  "fileField f m =
     (case audioMatch (fieldname f) of
        None \<Rightarrow> m
      | Some ds \<Rightarrow>
          modifyQuestion (parseDigits ds) (\<lambda>q. q\<lparr>file_q := Some f\<rparr>)
            (ensureQuestion (parseDigits ds) m))"

definition questionMap :: "(string \<times> string) list \<Rightarrow> upload_file list \<Rightarrow> question_map" where
  "questionMap body files = fold fileField files (fold bodyField body [])"

text \<open>The entries sorted by key (the keys of a \<open>Map\<close> are distinct).\<close>

definition sortedEntries :: "(string \<times> string) list \<Rightarrow> upload_file list \<Rightarrow> question_map" where
  "sortedEntries body files = sort_key fst (questionMap body files)"

definition hasContent :: "question \<Rightarrow> bool" where
  "hasContent q = (prompt q \<noteq> [] \<or> list_ex (\<lambda>a. a \<noteq> []) (answers q))"

definition parseStoryQuestions :: "(string \<times> string) list \<Rightarrow> upload_file list \<Rightarrow> question list" where
  "parseStoryQuestions body files = filter hasContent (map snd (sortedEntries body files))"

section \<open>The slots of a question and the fields that address them\<close>

text \<open>
  What a field name of the body addresses, read off the three patterns in the order the
  loop tries them: the question's index and the prompt, the correct index, or the answer
  at a position.
\<close>

datatype slot = PromptSlot | CorrectSlot | AnswerSlot nat

definition fieldSlot :: "string \<Rightarrow> (nat \<times> slot) option" where
  "fieldSlot field =
     (case promptMatch field of
        Some ds \<Rightarrow> Some (parseDigits ds, PromptSlot)
      | None \<Rightarrow>
          (case correctMatch field of
             Some ds \<Rightarrow> Some (parseDigits ds, CorrectSlot)
           | None \<Rightarrow>
               (case answerMatch field of
                  Some (ds, es) \<Rightarrow> Some (parseDigits ds, AnswerSlot (parseDigits es))
                | None \<Rightarrow> None)))"

definition fieldIndex :: "string \<Rightarrow> nat option" where
  "fieldIndex field = map_option fst (fieldSlot field)"

definition fileIndex :: "upload_file \<Rightarrow> nat option" where
  "fileIndex f = map_option parseDigits (audioMatch (fieldname f))"

text \<open>The assignment a field makes to the question it addresses.\<close>

fun slotUpdate :: "slot \<Rightarrow> string \<Rightarrow> question \<Rightarrow> question" where
  "slotUpdate PromptSlot v q = q\<lparr>prompt := trim v\<rparr>"
| "slotUpdate CorrectSlot v q = q\<lparr>correctIndex := parseInt10 v\<rparr>"
| "slotUpdate (AnswerSlot j) v q = (if j < 4 then q\<lparr>answers := (answers q)[j := trim v]\<rparr> else q)"

text \<open>
  The same on the finite map that the association list denotes: the question at an index
  is created when absent, then assigned to.
\<close>

definition upsert :: "nat \<Rightarrow> (question \<Rightarrow> question) \<Rightarrow> (nat \<rightharpoonup> question) \<Rightarrow> (nat \<rightharpoonup> question)" where
  "upsert i f M = M(i \<mapsto> f (case M i of None \<Rightarrow> emptyQuestion | Some q \<Rightarrow> q))"

definition bodyStep :: "string \<times> string \<Rightarrow> (nat \<rightharpoonup> question) \<Rightarrow> (nat \<rightharpoonup> question)" where
  "bodyStep fv M = (case fieldSlot (fst fv) of None \<Rightarrow> M | Some (i, s) \<Rightarrow> upsert i (slotUpdate s (snd fv)) M)"

definition fileStep :: "upload_file \<Rightarrow> (nat \<rightharpoonup> question) \<Rightarrow> (nat \<rightharpoonup> question)" where
  "fileStep f M = (case fileIndex f of None \<Rightarrow> M | Some i \<Rightarrow> upsert i (\<lambda>q. q\<lparr>file_q := Some f\<rparr>) M)"

text \<open>The slots that the fields of a body address, one entry per matching field.\<close>

definition bodySlots :: "(string \<times> string) list \<Rightarrow> (nat \<times> slot) option list" where
  "bodySlots b = filter (\<lambda>s. s \<noteq> None) (map (\<lambda>fv. fieldSlot (fst fv)) b)"

definition fileSlots :: "upload_file list \<Rightarrow> nat option list" where
  "fileSlots fs = filter (\<lambda>s. s \<noteq> None) (map fileIndex fs)"

text \<open>
  \<open>Number.MAX_SAFE_INTEGER\<close>, which is \<open>2 ^ 53 - 1\<close>: up to it every integer is a double and
  \<open>Number.parseInt\<close> returns the integer that the digits denote, so the key of the \<open>Map\<close>
  is the index of the model. A body and its files are within that range when every index
  that a field or a file names is. The position of an answer is only compared with 4 and
  a correct index only with 0 and 3, and rounding does not change the outcome of these
  comparisons.
\<close>

definition MAX_SAFE_INTEGER :: nat where
  "MAX_SAFE_INTEGER = 9007199254740991"

definition isSafeIndex :: "nat option \<Rightarrow> bool" where
  "isSafeIndex k = (case k of None \<Rightarrow> True | Some n \<Rightarrow> n \<le> MAX_SAFE_INTEGER)"

definition safeIndices :: "(string \<times> string) list \<Rightarrow> upload_file list \<Rightarrow> bool" where
  "safeIndices b fs = (list_all (\<lambda>fv. isSafeIndex (fieldIndex (fst fv))) b
                       \<and> list_all (\<lambda>f. isSafeIndex (fileIndex f)) fs)"

section \<open>Access policy\<close>

record session_user =
  su_id :: nat
  su_email :: string

record session =
  user :: "session_user option"
  returnTo :: "string option"

definition ADMIN_EMAIL :: string where
  "ADMIN_EMAIL = ''karen12389033@gmail.com''"

definition isAdmin :: "session_user option \<Rightarrow> bool" where
  "isAdmin u = (case u of None \<Rightarrow> False | Some x \<Rightarrow> su_email x = ADMIN_EMAIL)"

text \<open>
  What a middleware does with the request: it calls \<open>next()\<close>, redirects, or renders a
  page with a status.
\<close>

datatype decision = Next | Redirected string | Rendered nat string

text \<open>
  Both checks take the session and the requested URL and return their decision together
  with the session as they leave it.
\<close>

definition requireAuth :: "session \<Rightarrow> string \<Rightarrow> decision \<times> session" where
  "requireAuth sess originalUrl =
     (case user sess of
        None \<Rightarrow> (Redirected ''/login'', sess\<lparr>returnTo := Some originalUrl\<rparr>)
      | Some _ \<Rightarrow> (Next, sess))"

definition requireAdmin :: "session \<Rightarrow> string \<Rightarrow> decision \<times> session" where
  "requireAdmin sess originalUrl =
     (case user sess of
        None \<Rightarrow> (Redirected ''/login'', sess\<lparr>returnTo := Some originalUrl\<rparr>)
      | Some _ \<Rightarrow>
          if \<not> isAdmin (user sess) then (Rendered 403 ''errors/403'', sess)
          else (Next, sess))"

section \<open>The database\<close>

text \<open>
  A creation time is a calendar day and the second of that day.
  \<open>DATE_FORMAT(created_at, '%Y-%m-%d')\<close> keeps the day; the formatted text orders as the
  day does, so the model keeps the day's number.
\<close>

type_synonym timestamp = "nat \<times> nat"

definition DATE_FORMAT :: "timestamp \<Rightarrow> nat" where
  "DATE_FORMAT t = fst t"

record user_row =
  u_id :: nat
  u_email :: string
  password_hash :: string

record story_row =
  st_id :: nat
  st_title :: string
  st_level :: string
  st_summary :: string
  st_body :: string
  st_author_id :: nat
  st_created_at :: timestamp

record question_row =
  q_id :: nat
  q_story_id :: nat
  q_prompt :: string
  answer_a :: string
  answer_b :: string
  answer_c :: string
  answer_d :: string
  correct_index :: jsnum
  audio_path :: "string option"
  q_author_id :: nat
  q_created_at :: timestamp

record vocabulary_row =
  v_id :: nat
  v_term :: string
  v_translation :: string
  v_example_sentence :: "string option"
  v_author_id :: nat
  v_created_at :: timestamp

record grammar_row =
  g_id :: nat
  g_title :: string
  g_explanation :: string
  g_author_id :: nat
  g_created_at :: timestamp

text \<open>The tables, each in storage order, and the two counters of generated ids.\<close>

record database =
  tbl_users :: "user_row list"
  tbl_stories :: "story_row list"
  tbl_questions :: "question_row list"
  tbl_vocabulary :: "vocabulary_row list"
  tbl_grammar :: "grammar_row list"
  next_story_id :: nat
  next_question_id :: nat

text \<open>
  The database server is not part of the program. What it decides is a parameter: which
  inserts it accepts (constraints, connection failures), whether a commit goes through,
  and the time it stamps on a new row.
\<close>

record dbms =
  story_ok :: "database \<Rightarrow> story_row \<Rightarrow> bool"
  question_ok :: "database \<Rightarrow> question_row \<Rightarrow> bool"
  commit_ok :: "database \<Rightarrow> bool"
  now :: timestamp

datatype db_error = DbError

subsection \<open>Reads\<close>

text \<open>
  \<open>ORDER BY k DESC, id DESC\<close> is the reverse of the ascending order on the pairs
  \<open>(k, id)\<close>. In the queries that select \<open>DATE_FORMAT(created_at, ...) AS created_at\<close>,
  the name \<open>created_at\<close> in \<open>ORDER BY\<close> is that select expression: MySQL resolves a name
  in \<open>ORDER BY\<close> among the select expressions before the columns of the table.
\<close>

text \<open>
  Each listing query is read in two steps: the rows of the table in the order of its
  \<open>ORDER BY\<close>, then the select list.
\<close>

definition selectStoriesByDay :: "database \<Rightarrow> story_row list" where
  "selectStoriesByDay d = rev (sort_key (\<lambda>r. (DATE_FORMAT (st_created_at r), st_id r)) (tbl_stories d))"

definition selectStoriesByTime :: "database \<Rightarrow> story_row list" where
  "selectStoriesByTime d = rev (sort_key (\<lambda>r. (st_created_at r, st_id r)) (tbl_stories d))"

definition selectQuestionsOfStory :: "database \<Rightarrow> nat \<Rightarrow> question_row list" where
  "selectQuestionsOfStory d storyId = sort_key q_id (filter (\<lambda>r. q_story_id r = storyId) (tbl_questions d))"

definition selectVocabularyByDay :: "database \<Rightarrow> vocabulary_row list" where
  "selectVocabularyByDay d = rev (sort_key (\<lambda>r. (DATE_FORMAT (v_created_at r), v_id r)) (tbl_vocabulary d))"

definition selectGrammarByDay :: "database \<Rightarrow> grammar_row list" where
  "selectGrammarByDay d = rev (sort_key (\<lambda>r. (DATE_FORMAT (g_created_at r), g_id r)) (tbl_grammar d))"

record story_item =
  item_id :: nat
  item_title :: string
  item_level :: string
  item_summary :: string
  item_created_at :: nat

definition getAllStories :: "database \<Rightarrow> story_item list" where
  "getAllStories d =
     map (\<lambda>r. \<lparr>item_id = st_id r, item_title = st_title r, item_level = st_level r,
               item_summary = st_summary r, item_created_at = DATE_FORMAT (st_created_at r)\<rparr>)
       (selectStoriesByDay d)"

definition getStorySummaries :: "database \<Rightarrow> (nat \<times> string) list" where
  "getStorySummaries d = map (\<lambda>r. (st_id r, st_title r)) (selectStoriesByTime d)"

definition getStoryById :: "database \<Rightarrow> nat \<Rightarrow> story_row option" where
  "getStoryById d i = find (\<lambda>r. st_id r = i) (tbl_stories d)"

record question_view =
  view_id :: nat
  view_prompt :: string
  view_answers :: "string list"
  view_correctIndex :: jsnum
  view_audioPath :: "string option"

definition getQuestionsForStory :: "database \<Rightarrow> nat \<Rightarrow> question_view list" where
  "getQuestionsForStory d storyId =
     map (\<lambda>r. \<lparr>view_id = q_id r, view_prompt = q_prompt r,
               view_answers = [answer_a r, answer_b r, answer_c r, answer_d r],
               view_correctIndex = correct_index r, view_audioPath = audio_path r\<rparr>)
       (selectQuestionsOfStory d storyId)"

record vocabulary_item =
  vi_id :: nat
  vi_term :: string
  vi_translation :: string
  vi_example_sentence :: "string option"
  vi_created_at :: nat

definition getVocabularyEntries :: "database \<Rightarrow> vocabulary_item list" where
  "getVocabularyEntries d =
     map (\<lambda>r. \<lparr>vi_id = v_id r, vi_term = v_term r, vi_translation = v_translation r,
               vi_example_sentence = v_example_sentence r,
               vi_created_at = DATE_FORMAT (v_created_at r)\<rparr>)
       (selectVocabularyByDay d)"

record grammar_item =
  gi_id :: nat
  gi_title :: string
  gi_explanation :: string
  gi_created_at :: nat

definition getGrammarTopics :: "database \<Rightarrow> grammar_item list" where
  "getGrammarTopics d =
     map (\<lambda>r. \<lparr>gi_id = g_id r, gi_title = g_title r, gi_explanation = g_explanation r,
               gi_created_at = DATE_FORMAT (g_created_at r)\<rparr>)
       (selectGrammarByDay d)"

text \<open>
  The order the specification states for a listing, on the pairs of creation time and id
  of its rows: a later time first, and among equal times the larger id first.
\<close>

definition newestFirst :: "(timestamp \<times> nat) list \<Rightarrow> bool" where
  "newestFirst ks = sorted_wrt (\<lambda>a b. fst b < fst a \<or> (fst a = fst b \<and> snd b \<le> snd a)) ks"

text \<open>The creation time cut to its day, as the formatted column gives it.\<close>

definition dayOf :: "timestamp \<Rightarrow> timestamp" where
  "dayOf t = (DATE_FORMAT t, 0)"

definition findUserByEmail :: "database \<Rightarrow> string \<Rightarrow> user_row option" where
  "findUserByEmail d e = find (\<lambda>r. u_email r = e) (tbl_users d)"

subsection \<open>Writes\<close>

text \<open>
  An insert appends one row to the connection's view of the table and returns the
  generated id, or fails. The connection's view is the database the transaction began
  with plus its own inserts.
\<close>

definition createStory ::
  "dbms \<Rightarrow> string \<Rightarrow> string \<Rightarrow> string \<Rightarrow> string \<Rightarrow> nat \<Rightarrow> database \<Rightarrow> db_error + nat \<times> database" where
  "createStory sv titleText levelText summaryText bodyText authorId conn =
     (let row = \<lparr>st_id = next_story_id conn, st_title = titleText, st_level = levelText,
                 st_summary = summaryText, st_body = bodyText, st_author_id = authorId,
                 st_created_at = now sv\<rparr>
      in if story_ok sv conn row
         then Inr (st_id row, conn\<lparr>tbl_stories := tbl_stories conn @ [row],
                                  next_story_id := Suc (next_story_id conn)\<rparr>)
         else Inl DbError)"

text \<open>
  \<open>answers[0]\<close> to \<open>answers[3]\<close> are the bound parameters; with fewer than four answers
  one of them is \<open>undefined\<close>, which the driver refuses.
\<close>

definition createQuestion ::
  "dbms \<Rightarrow> nat \<Rightarrow> string \<Rightarrow> string list \<Rightarrow> jsnum \<Rightarrow> string option \<Rightarrow> nat \<Rightarrow> database
     \<Rightarrow> db_error + nat \<times> database" where
  "createQuestion sv storyId promptText answerList correctIdx audioPath authorId conn =
     (case answerList of
        a # b # c # e # _ \<Rightarrow>
          (let row = \<lparr>q_id = next_question_id conn, q_story_id = storyId, q_prompt = promptText,
                      answer_a = a, answer_b = b, answer_c = c, answer_d = e,
                      correct_index = correctIdx, audio_path = audioPath,
                      q_author_id = authorId, q_created_at = now sv\<rparr>
           in if question_ok sv conn row
              then Inr (q_id row, conn\<lparr>tbl_questions := tbl_questions conn @ [row],
                                      next_question_id := Suc (next_question_id conn)\<rparr>)
              else Inl DbError)
      | _ \<Rightarrow> Inl DbError)"

section \<open>The story-authoring workflow (POST /stories)\<close>

text \<open>What a handler sends: a rendered view with its status, error and form values, or a redirect.\<close>

datatype 'v response = Render nat string "string option" 'v | RenderPage nat string | Redirect string

text \<open>The status, the error message and the form values of a response (a redirect is a 302).\<close>

definition statusOf :: "'v response \<Rightarrow> nat" where
  "statusOf r = (case r of Render st _ _ _ \<Rightarrow> st | RenderPage st _ \<Rightarrow> st | Redirect _ \<Rightarrow> 302)"

definition errorOf :: "'v response \<Rightarrow> string option" where
  "errorOf r = (case r of Render _ _ e _ \<Rightarrow> e | RenderPage _ _ \<Rightarrow> None | Redirect _ \<Rightarrow> None)"

definition valuesOf :: "'v response \<Rightarrow> 'v option" where
  "valuesOf r = (case r of Render _ _ _ v \<Rightarrow> Some v | RenderPage _ _ \<Rightarrow> None | Redirect _ \<Rightarrow> None)"

record story_values =
  title :: string
  level :: string
  summary :: string
  body :: string
  questions :: "question list"

definition STORY_LEVELS :: "string list" where
  "STORY_LEVELS = [''A1'', ''A2'', ''B1'', ''B2'', ''C1'', ''C2'']"

text \<open>
  The request as the handler reads it once the upload middleware has run: the entries of
  \<open>req.body\<close> in the order of \<open>Object.entries\<close>, the stored files, and the upload's error if
  it failed.
\<close>

record story_request =
  req_body :: "(string \<times> string) list"
  req_files :: "upload_file list"
  upload_error :: "string option"

text \<open>\<open>req.body.name || ""\<close>.\<close>

definition fieldOr :: "(string \<times> string) list \<Rightarrow> string \<Rightarrow> string" where
  "fieldOr b name = (case map_of b name of None \<Rightarrow> [] | Some v \<Rightarrow> v)"

text \<open>
  The state outside the request: the database and the paths stored in the upload
  directory. \<open>cleanupFiles\<close> starts the deletion of each file and does not wait for it; the
  model takes the deletions as done.
\<close>

record world =
  db :: database
  disk :: "string list"

definition cleanupFiles :: "upload_file list \<Rightarrow> world \<Rightarrow> world" where
  "cleanupFiles files w = w\<lparr>disk := filter (\<lambda>p. p \<notin> set (map path files)) (disk w)\<rparr>"

definition msgRequired :: string where
  "msgRequired = ''Please fill in all required fields.''"

text \<open>The dash between the two levels is U+2013, here in UTF-8.\<close>

definition msgLevel :: string where
  "msgLevel = ''Please choose a valid level (A1'' @ [CHR 0xE2, CHR 0x80, CHR 0x93] @ ''C2).''"

definition msgPromptAnswers :: string where
  "msgPromptAnswers = ''Each question must include a prompt and four answers.''"

definition msgCorrect :: string where
  "msgCorrect = ''Select which answer is correct for each question.''"

definition msgUnexpected :: string where
  "msgUnexpected = ''An unexpected error occurred while saving the story.''"

text \<open>The loop over \<open>values.questions\<close>: the message of the first check that fails.\<close>

fun validateQuestions :: "question list \<Rightarrow> string option" where
  "validateQuestions [] = None"
| "validateQuestions (q # qs) =
     (if prompt q = [] \<or> list_ex (\<lambda>a. a = []) (answers q) then Some msgPromptAnswers
      else if isNaN (correctIndex q) \<or> numLess (correctIndex q) 0 \<or> numGreater (correctIndex q) 3
      then Some msgCorrect
      else validateQuestions qs)"

text \<open>
  \<open>path.posix.join("uploads/questions", file.filename)\<close>; the stored name is generated
  (digits, a dash, the extension), so joining does not rewrite it.
\<close>

definition audioPathOf :: "question \<Rightarrow> string option" where
  "audioPathOf q = (case file_q q of None \<Rightarrow> None | Some f \<Rightarrow> Some (''uploads/questions/'' @ filename f))"

fun insertQuestions :: "dbms \<Rightarrow> nat \<Rightarrow> nat \<Rightarrow> question list \<Rightarrow> database \<Rightarrow> db_error + database" where
  "insertQuestions sv storyId authorId [] conn = Inr conn"
| "insertQuestions sv storyId authorId (q # qs) conn =
     (case createQuestion sv storyId (prompt q) (answers q) (correctIndex q) (audioPathOf q) authorId conn of
        Inl e \<Rightarrow> Inl e
      | Inr (_, conn') \<Rightarrow> insertQuestions sv storyId authorId qs conn')"

text \<open>
  The body of the \<open>try\<close> block: the transaction begins on the current database, inserts
  the story and its questions, and commits. \<open>Inl\<close> is the exception that reaches \<open>catch\<close>;
  \<open>Inr\<close> carries the new story's id and the committed database.
\<close>

definition saveStory :: "dbms \<Rightarrow> story_values \<Rightarrow> nat \<Rightarrow> database \<Rightarrow> db_error + nat \<times> database" where
  "saveStory sv vals authorId d =
     (case createStory sv (title vals) (level vals) (summary vals) (body vals) authorId d of
        Inl e \<Rightarrow> Inl e
      | Inr (storyId, c1) \<Rightarrow>
          (case insertQuestions sv storyId authorId (questions vals) c1 of
             Inl e \<Rightarrow> Inl e
           | Inr c2 \<Rightarrow> if commit_ok sv c2 then Inr (storyId, c2) else Inl DbError))"

definition initialValues :: story_values where
  "initialValues = \<lparr>title = [], level = ''A1'', summary = [], body = [], questions = []\<rparr>"

definition readValues :: "story_request \<Rightarrow> story_values" where
  "readValues req =
     \<lparr>title = trim (fieldOr (req_body req) ''title''),
      level = toUpperCase (trim (fieldOr (req_body req) ''level'')),
      summary = trim (fieldOr (req_body req) ''summary''),
      body = trim (fieldOr (req_body req) ''body''),
      questions = parseStoryQuestions (req_body req) (req_files req)\<rparr>"

definition renderForm :: "nat \<Rightarrow> string \<Rightarrow> story_values \<Rightarrow> story_values response" where
  "renderForm status errorMessage vals = Render status ''stories/new'' (Some errorMessage) vals"

text \<open>
  The handler behind \<open>requireAdmin\<close>, for the signed-in user \<open>u\<close>. A rollback leaves the
  database as it was when the transaction began.
\<close>

definition postStories :: "dbms \<Rightarrow> session_user \<Rightarrow> story_request \<Rightarrow> world \<Rightarrow> story_values response \<times> world" where
  "postStories sv u req w =
     (case upload_error req of
        Some message \<Rightarrow> (renderForm 400 message initialValues, cleanupFiles (req_files req) w)
      | None \<Rightarrow>
          (let vals = readValues req in
           if title vals = [] \<or> summary vals = [] \<or> body vals = []
           then (renderForm 400 msgRequired vals, cleanupFiles (req_files req) w)
           else if level vals \<notin> set STORY_LEVELS
           then (renderForm 400 msgLevel vals, cleanupFiles (req_files req) w)
           else
             (case validateQuestions (questions vals) of
                Some message \<Rightarrow> (renderForm 400 message vals, cleanupFiles (req_files req) w)
              | None \<Rightarrow>
                  (case saveStory sv vals (su_id u) (db w) of
                     Inr (storyId, d') \<Rightarrow> (Redirect (''/story/'' @ showNat storyId), w\<lparr>db := d'\<rparr>)
                   | Inl _ \<Rightarrow> (renderForm 500 msgUnexpected vals, cleanupFiles (req_files req) w)))))"

text \<open>The route: \<open>requireAdmin\<close>, then the handler.\<close>

definition routePostStories ::
  "dbms \<Rightarrow> session \<Rightarrow> string \<Rightarrow> story_request \<Rightarrow> world \<Rightarrow> story_values response \<times> session \<times> world" where
  "routePostStories sv sess originalUrl req w =
     (case requireAdmin sess originalUrl of
        (Redirected url, sess') \<Rightarrow> (Redirect url, sess', w)
      | (Rendered status page, sess') \<Rightarrow> (RenderPage status page, sess', w)
      | (Next, sess') \<Rightarrow>
          (case user sess' of
             None \<Rightarrow> (RenderPage 500 ''errors/500'', sess', w)
           | Some u \<Rightarrow> (case postStories sv u req w of (r, w') \<Rightarrow> (r, sess', w'))))"

section \<open>The single-question workflow (POST /questions)\<close>

text \<open>A field of the parsed body is a string or, when the name was sent several times, an array.\<close>

datatype form_value = Single string | Many "string list"

record question_form =
  form_storyId :: "string option"
  form_prompt :: "string option"
  form_answers :: "form_value option"
  form_correctIndex :: "string option"

record question_request =
  qreq_body :: question_form
  qreq_file :: "upload_file option"
  qreq_upload_error :: "string option"

record question_values =
  qv_storyId :: jsnum
  qv_prompt :: string
  qv_answers :: "string list"
  qv_correctIndex :: jsnum

text \<open>What \<open>renderForm\<close> passes to the view: the story summaries and the normalised values.\<close>

record question_page =
  page_stories :: "(nat \<times> string) list"
  page_storyId :: "int option"
  page_prompt :: string
  page_answers :: "string list"
  page_correctIndex :: jsnum

definition orEmpty :: "string option \<Rightarrow> string" where
  "orEmpty v = (case v of None \<Rightarrow> [] | Some s \<Rightarrow> s)"

definition readAnswers :: "form_value option \<Rightarrow> string list" where
  "readAnswers v =
     (let given = (case v of
                     Some (Many xs) \<Rightarrow> map trim xs
                   | Some (Single x) \<Rightarrow> [x]
                   | None \<Rightarrow> [[]])
      in if length given < 4 then take 4 (given @ [[], [], [], []]) else given)"

definition readQuestionValues :: "question_form \<Rightarrow> question_values" where
  "readQuestionValues b =
     \<lparr>qv_storyId = parseIntField (form_storyId b),
      qv_prompt = trim (orEmpty (form_prompt b)),
      qv_answers = readAnswers (form_answers b),
      qv_correctIndex = parseIntField (form_correctIndex b)\<rparr>"

definition renderQuestionForm ::
  "database \<Rightarrow> nat \<Rightarrow> string \<Rightarrow> question_values \<Rightarrow> question_page response" where
  "renderQuestionForm d status err vals =
     Render status ''questions/new'' (Some err)
       \<lparr>page_stories = getStorySummaries d,
        page_storyId = (case qv_storyId vals of NaN \<Rightarrow> None | Finite n \<Rightarrow> if n = 0 then None else Some n),
        page_prompt = qv_prompt vals,
        page_answers = take 4 (take 4 (qv_answers vals) @ [[], [], [], []]),
        page_correctIndex = qv_correctIndex vals\<rparr>"

definition cleanupUploadedFile :: "upload_file option \<Rightarrow> world \<Rightarrow> world" where
  "cleanupUploadedFile f w = (case f of None \<Rightarrow> w | Some x \<Rightarrow> w\<lparr>disk := filter (\<lambda>p. p \<noteq> path x) (disk w)\<rparr>)"

text \<open>
  The handler behind \<open>requireAdmin\<close>. The insert runs on the pool, outside any
  transaction; when it fails the exception reaches the error middleware.
\<close>

definition postQuestions ::
  "dbms \<Rightarrow> session_user \<Rightarrow> question_request \<Rightarrow> world \<Rightarrow> question_page response \<times> world" where
  "postQuestions sv u req w =
     (let vals = readQuestionValues (qreq_body req) in
      case qreq_upload_error req of
        Some message \<Rightarrow>
          (renderQuestionForm (db w) 400 message vals, cleanupUploadedFile (qreq_file req) w)
      | None \<Rightarrow>
          if isNaN (qv_storyId vals) \<or> numLessEq (qv_storyId vals) 0
          then (renderQuestionForm (db w) 400 ''Please choose which story this question belongs to.'' vals,
                cleanupUploadedFile (qreq_file req) w)
          else if qv_prompt vals = []
          then (renderQuestionForm (db w) 400 ''Please provide the question prompt.'' vals,
                cleanupUploadedFile (qreq_file req) w)
          else if list_ex (\<lambda>a. a = []) (qv_answers vals)
          then (renderQuestionForm (db w) 400 ''All four answer options are required.'' vals,
                cleanupUploadedFile (qreq_file req) w)
          else if isNaN (qv_correctIndex vals) \<or> numLess (qv_correctIndex vals) 0
                  \<or> numGreater (qv_correctIndex vals) 3
          then (renderQuestionForm (db w) 400 ''Select which answer is correct.'' vals,
                cleanupUploadedFile (qreq_file req) w)
          else
            (case qv_storyId vals of
               NaN \<Rightarrow> (renderQuestionForm (db w) 400 ''Please choose which story this question belongs to.'' vals,
                        cleanupUploadedFile (qreq_file req) w)
             | Finite n \<Rightarrow>
                 (case getStoryById (db w) (nat n) of
                    None \<Rightarrow>
                      (renderQuestionForm (db w) 400 ''The selected story could not be found.'' vals,
                       cleanupUploadedFile (qreq_file req) w)
                  | Some _ \<Rightarrow>
                      (case createQuestion sv (nat n) (qv_prompt vals) (qv_answers vals)
                              (qv_correctIndex vals)
                              (case qreq_file req of None \<Rightarrow> None
                               | Some f \<Rightarrow> Some (''uploads/questions/'' @ filename f))
                              (su_id u) (db w) of
                         Inl _ \<Rightarrow> (RenderPage 500 ''errors/500'', w)
                       | Inr (questionId, d') \<Rightarrow>
                           (Redirect (''/questions/new?created='' @ showNat questionId), w\<lparr>db := d'\<rparr>)))))"

section \<open>Login (POST /login)\<close>

record login_form =
  form_email :: "string option"
  form_password :: "string option"

record login_values =
  lv_email :: string

definition normalizeEmail :: "string \<Rightarrow> string" where
  "normalizeEmail e = toLowerCase (trim e)"

definition setLoggedInUser :: "session \<Rightarrow> user_row \<Rightarrow> session" where
  "setLoggedInUser sess r = sess\<lparr>user := Some \<lparr>su_id = u_id r, su_email = normalizeEmail (u_email r)\<rparr>\<rparr>"

text \<open>
  The password check of the hashing library is the parameter \<open>compare\<close>. The handler
  returns its response and the session as it leaves it.
\<close>

definition postLogin ::
  "(string \<Rightarrow> string \<Rightarrow> bool) \<Rightarrow> database \<Rightarrow> session \<Rightarrow> login_form \<Rightarrow> login_values response \<times> session" where
  "postLogin compare d sess f =
     (let email = orEmpty (form_email f);
          password = orEmpty (form_password f);
          normalizedEmail = normalizeEmail email;
          vals = \<lparr>lv_email = email\<rparr>
      in if normalizedEmail = [] \<or> password = []
         then (Render 400 ''login'' (Some ''Please enter your email and password.'') vals, sess)
         else
           (case findUserByEmail d normalizedEmail of
              None \<Rightarrow> (Render 400 ''login'' (Some ''Email or password is incorrect.'') vals, sess)
            | Some r \<Rightarrow>
                if \<not> compare password (password_hash r)
                then (Render 400 ''login'' (Some ''Email or password is incorrect.'') vals, sess)
                else
                  (Redirect (case returnTo sess of None \<Rightarrow> ''/'' | Some url \<Rightarrow> if url = [] then ''/'' else url),
                   (setLoggedInUser sess r)\<lparr>returnTo := None\<rparr>)))"

section \<open>Example data\<close>

definition emptyDatabase :: database where
  "emptyDatabase = \<lparr>tbl_users = [], tbl_stories = [], tbl_questions = [], tbl_vocabulary = [],
                     tbl_grammar = [], next_story_id = 1, next_question_id = 1\<rparr>"

text \<open>A server that enforces the length of the \<open>VARCHAR(255)\<close> columns and stamps day 100.\<close>

definition exampleDbms :: dbms where
  "exampleDbms = \<lparr>story_ok = (\<lambda>d r. length (st_title r) \<le> 255 \<and> length (st_summary r) \<le> 255),
                   question_ok = (\<lambda>d r. length (answer_a r) \<le> 255 \<and> length (answer_b r) \<le> 255
                                          \<and> length (answer_c r) \<le> 255 \<and> length (answer_d r) \<le> 255),
                   commit_ok = (\<lambda>d. True),
                   now = (100, 0)\<rparr>"

definition exampleWorld :: world where
  "exampleWorld = \<lparr>db = emptyDatabase, disk = []\<rparr>"

definition adminUser :: session_user where
  "adminUser = \<lparr>su_id = 1, su_email = ADMIN_EMAIL\<rparr>"

text \<open>The story of the specification's example scenario, without questions.\<close>

definition storyFields :: "(string \<times> string) list" where
  "storyFields = [(''title'', ''Der Mond''), (''level'', ''a1''), (''summary'', ''S''), (''body'', ''B'')]"

definition questionFields :: "(string \<times> string) list" where
  "questionFields =
     [(''questions[0][prompt]'', ''Farbe?''),
      (''questions[0][answers][0]'', ''Rot''), (''questions[0][answers][1]'', ''Blau''),
      (''questions[0][answers][2]'', ''Gruen''), (''questions[0][answers][3]'', ''Gelb'')]"

definition formRequest :: "(string \<times> string) list \<Rightarrow> story_request" where
  "formRequest b = \<lparr>req_body = b, req_files = [], upload_error = None\<rparr>"

text \<open>Two questions of story 1; the second was created a day later.\<close>

definition twoQuestions :: database where
  "twoQuestions = emptyDatabase\<lparr>tbl_questions :=
     [\<lparr>q_id = 1, q_story_id = 1, q_prompt = ''P1'', answer_a = ''a'', answer_b = ''b'',
        answer_c = ''c'', answer_d = ''d'', correct_index = Finite 0, audio_path = None,
        q_author_id = 1, q_created_at = (100, 0)\<rparr>,
      \<lparr>q_id = 2, q_story_id = 1, q_prompt = ''P2'', answer_a = ''a'', answer_b = ''b'',
        answer_c = ''c'', answer_d = ''d'', correct_index = Finite 1, audio_path = None,
        q_author_id = 1, q_created_at = (101, 0)\<rparr>]\<rparr>"

text \<open>Two stories of the same day; the one with the smaller id carries the later time.\<close>

definition twoStories :: database where
  "twoStories = emptyDatabase\<lparr>tbl_stories :=
     [\<lparr>st_id = 3, st_title = ''T3'', st_level = ''A1'', st_summary = ''S'', st_body = ''B'',
        st_author_id = 1, st_created_at = (100, 200)\<rparr>,
      \<lparr>st_id = 5, st_title = ''T5'', st_level = ''A1'', st_summary = ''S'', st_body = ''B'',
        st_author_id = 1, st_created_at = (100, 100)\<rparr>]\<rparr>"

text \<open>One account, and a password check that accepts the password \<open>pw\<close> for the hash \<open>hash(pw)\<close>.\<close>

definition oneUser :: database where
  "oneUser = emptyDatabase\<lparr>tbl_users := [\<lparr>u_id = 4, u_email = ''reader@example.org'', password_hash = ''hash(secret)''\<rparr>]\<rparr>"

definition exampleCompare :: "string \<Rightarrow> string \<Rightarrow> bool" where
  "exampleCompare pw h = (h = ''hash('' @ pw @ '')'')"

definition loginForm :: "string \<Rightarrow> string \<Rightarrow> login_form" where
  "loginForm e pw = \<lparr>form_email = Some e, form_password = Some pw\<rparr>"

definition anonymous :: session where
  "anonymous = \<lparr>user = None, returnTo = None\<rparr>"

definition signedIn :: "session_user \<Rightarrow> session" where
  "signedIn u = \<lparr>user = Some u, returnTo = None\<rparr>"

text \<open>A server that accepts every row, one that loses the connection before the commit.\<close>

definition acceptingDbms :: dbms where
  "acceptingDbms = \<lparr>story_ok = (\<lambda>d r. True), question_ok = (\<lambda>d r. True), commit_ok = (\<lambda>d. True), now = (100, 0)\<rparr>"

definition failingCommit :: dbms where
  "failingCommit = exampleDbms\<lparr>commit_ok := (\<lambda>d. False)\<rparr>"

definition adminQuestionRequest :: "string \<Rightarrow> question_request" where
  "adminQuestionRequest ci =
     \<lparr>qreq_body = \<lparr>form_storyId = Some ''1'', form_prompt = Some ''Farbe?'',
                    form_answers = Some (Many [''Rot'', ''Blau'', ''Gruen'', ''Gelb'']),
                    form_correctIndex = Some ci\<rparr>,
      qreq_file = None, qreq_upload_error = None\<rparr>"

text \<open>
  The example scenario of the specification: the story with one question whose correct
  index is 2; the same with correct index 5; the story with a row that is blank but for
  a correct index of 9; a story form whose title has spaces around it and whose summary
  and body are missing; and the story with its question but no correct-index field.
\<close>

definition validRequest :: story_request where
  "validRequest = formRequest (storyFields @ questionFields @ [(''questions[0][correctIndex]'', ''2'')])"

definition badIndexRequest :: story_request where
  "badIndexRequest = formRequest (storyFields @ questionFields @ [(''questions[0][correctIndex]'', ''5'')])"

definition blankRowRequest :: story_request where
  "blankRowRequest = formRequest (storyFields @ [(''questions[0][prompt]'', ''  ''), (''questions[0][correctIndex]'', ''9'')])"

definition untrimmedRequest :: story_request where
  "untrimmedRequest = formRequest [(''title'', '' Der Mond ''), (''level'', ''a1'')]"

definition noIndexRequest :: story_request where
  "noIndexRequest = formRequest (storyFields @ questionFields)"

definition badLevelRequest :: story_request where
  "badLevelRequest = formRequest [(''title'', ''Der Mond''), (''level'', ''d1''), (''summary'', ''S''), (''body'', ''B'')]"

text \<open>
  Two questions that agree but for the field name their file was sent under, and two
  finite maps of questions of which the second holds, at the index \<open>g k\<close>, such a copy of
  what the first holds at \<open>k\<close>, and nothing elsewhere.
\<close>

definition sameQuestion :: "question \<Rightarrow> question \<Rightarrow> bool" where
  "sameQuestion q q' =
     (prompt q' = prompt q \<and> answers q' = answers q \<and> correctIndex q' = correctIndex q
      \<and> rel_option (\<lambda>f f'. filename f' = filename f \<and> path f' = path f) (file_q q) (file_q q'))"

definition renumbered :: "(nat \<Rightarrow> nat) \<Rightarrow> (nat \<rightharpoonup> question) \<Rightarrow> (nat \<rightharpoonup> question) \<Rightarrow> bool" where
  "renumbered g M M' =
     ((\<forall>k. rel_option sameQuestion (M k) (M' (g k))) \<and> (\<forall>j. j \<notin> range g \<longrightarrow> M' j = None))"

text \<open>
  Example fields: two names that denote the same index; prompts sent for the indices 2, 0
  and 5 among fields that match no pattern; the same prompts under the indices 1, 0 and
  2; and a renumbering that takes 0, 1, 2 to 0, 2, 5.
\<close>

definition aliasFields :: "(string \<times> string) list" where
  "aliasFields = [(''questions[0][prompt]'', ''a''), (''questions[00][prompt]'', ''b'')]"

definition scatteredFields :: "(string \<times> string) list" where
  "scatteredFields =
     [(''questions[2][prompt]'', ''two''), (''title'', ''T''), (''questions[0][prompt]'', ''zero''),
      (''questions[x][prompt]'', ''none''), (''questions[5][prompt]'', ''five'')]"

definition compactFields :: "(string \<times> string) list" where
  "compactFields =
     [(''questions[1][prompt]'', ''two''), (''title'', ''T''), (''questions[0][prompt]'', ''zero''),
      (''questions[x][prompt]'', ''none''), (''questions[2][prompt]'', ''five'')]"

definition gapMap :: "nat \<Rightarrow> nat" where
  "gapMap n = (if n = 0 then 0 else if n = 1 then 2 else n + 3)"

text \<open>Two stories created in the same second.\<close>

definition sameSecondStories :: database where
  "sameSecondStories = emptyDatabase\<lparr>tbl_stories :=
     [\<lparr>st_id = 3, st_title = ''T3'', st_level = ''A1'', st_summary = ''S'', st_body = ''B'',
        st_author_id = 1, st_created_at = (100, 200)\<rparr>,
      \<lparr>st_id = 5, st_title = ''T5'', st_level = ''A1'', st_summary = ''S'', st_body = ''B'',
        st_author_id = 1, st_created_at = (100, 200)\<rparr>]\<rparr>"

section \<open>Properties of the access policy, the login and the listings\<close>

subsection \<open>Access policy\<close>

text \<open>
  Claim C9 says that \<open>requireAuth\<close> and \<open>requireAdmin\<close> leave the session unchanged. For a
  visitor who is not signed in both write the requested URL into the session before they
  redirect: the session that comes back differs from the one that went in.
\<close>

theorem access_policy_changes_session:
  "snd (requireAuth \<lparr>user = None, returnTo = None\<rparr> ''/story/1'') \<noteq> \<lparr>user = None, returnTo = None\<rparr>
   \<and> snd (requireAdmin \<lparr>user = None, returnTo = None\<rparr> ''/stories/new'') \<noteq> \<lparr>user = None, returnTo = None\<rparr>"
  by (simp add: requireAuth_def requireAdmin_def)

text \<open>
  Claim C9, amended. The decision of either check is a function of the session's identity
  (and the admin email) alone, and neither check changes the identity. With an identity
  present the session is left as it was; with none, the only change is that \<open>returnTo\<close>
  holds the requested URL.
\<close>

theorem access_policy_decision:
  "(user s = user s' \<longrightarrow>
      fst (requireAuth s url) = fst (requireAuth s' url')
      \<and> fst (requireAdmin s url) = fst (requireAdmin s' url'))
   \<and> fst (requireAuth s url) = (if user s = None then Redirected ''/login'' else Next)
   \<and> fst (requireAdmin s url) =
       (if user s = None then Redirected ''/login''
        else if isAdmin (user s) then Next else Rendered 403 ''errors/403'')
   \<and> user (snd (requireAuth s url)) = user s
   \<and> user (snd (requireAdmin s url)) = user s
   \<and> (user s \<noteq> None \<longrightarrow> snd (requireAuth s url) = s \<and> snd (requireAdmin s url) = s)
   \<and> (user s = None \<longrightarrow>
        snd (requireAuth s url) = s\<lparr>returnTo := Some url\<rparr>
        \<and> snd (requireAdmin s url) = s\<lparr>returnTo := Some url\<rparr>)"
  by (auto simp: requireAuth_def requireAdmin_def split: option.splits)

theorem access_policy_decision_witness:
  "user anonymous = None
   \<and> requireAdmin anonymous ''/stories/new'' = (Redirected ''/login'', anonymous\<lparr>returnTo := Some ''/stories/new''\<rparr>)
   \<and> user (signedIn adminUser) \<noteq> None
   \<and> requireAdmin (signedIn adminUser) ''/stories/new'' = (Next, signedIn adminUser)
   \<and> requireAuth (signedIn adminUser) ''/story/1'' = (Next, signedIn adminUser)"
proof -
  have a: "user anonymous = None" by (simp add: anonymous_def)
  have b: "user (signedIn adminUser) \<noteq> None" by (simp add: signedIn_def)
  have c: "isAdmin (user (signedIn adminUser))" by (simp add: signedIn_def isAdmin_def adminUser_def)
  show ?thesis
    using a b c
      access_policy_decision [of anonymous anonymous "''/stories/new''" "''/stories/new''"]
      access_policy_decision [of "signedIn adminUser" "signedIn adminUser" "''/stories/new''" "''/stories/new''"]
      access_policy_decision [of "signedIn adminUser" "signedIn adminUser" "''/story/1''" "''/story/1''"]
    by (simp add: prod_eq_iff)
qed

subsection \<open>Login\<close>

text \<open>
  Claim C7. A login with an existing email and a wrong password, and a login with an email
  that has no account, are answered with the same status, the same view and the same
  error message; the two responses differ at most in the email each request sent, which
  the form shows again. Neither changes the session.
\<close>

theorem login_same_message:
  assumes "normalizeEmail (orEmpty (form_email f1)) \<noteq> []" "orEmpty (form_password f1) \<noteq> []"
    and "findUserByEmail d1 (normalizeEmail (orEmpty (form_email f1))) = Some r"
    and "\<not> compare (orEmpty (form_password f1)) (password_hash r)"
    and "normalizeEmail (orEmpty (form_email f2)) \<noteq> []" "orEmpty (form_password f2) \<noteq> []"
    and "findUserByEmail d2 (normalizeEmail (orEmpty (form_email f2))) = None"
  shows "postLogin compare d1 s1 f1
           = (Render 400 ''login'' (Some ''Email or password is incorrect.'') \<lparr>lv_email = orEmpty (form_email f1)\<rparr>, s1)
       \<and> postLogin compare d2 s2 f2
           = (Render 400 ''login'' (Some ''Email or password is incorrect.'') \<lparr>lv_email = orEmpty (form_email f2)\<rparr>, s2)
       \<and> errorOf (fst (postLogin compare d1 s1 f1)) = errorOf (fst (postLogin compare d2 s2 f2))
       \<and> statusOf (fst (postLogin compare d1 s1 f1)) = statusOf (fst (postLogin compare d2 s2 f2))"
  using assms by (simp add: postLogin_def Let_def errorOf_def statusOf_def)

theorem login_same_message_witness:
  "findUserByEmail oneUser (normalizeEmail '' Reader@Example.org'') = Some (hd (tbl_users oneUser))
   \<and> \<not> exampleCompare ''wrong'' (password_hash (hd (tbl_users oneUser)))
   \<and> findUserByEmail oneUser (normalizeEmail ''nobody@example.org'') = None
   \<and> errorOf (fst (postLogin exampleCompare oneUser anonymous (loginForm '' Reader@Example.org'' ''wrong'')))
       = Some ''Email or password is incorrect.''
   \<and> errorOf (fst (postLogin exampleCompare oneUser anonymous (loginForm ''nobody@example.org'' ''secret'')))
       = Some ''Email or password is incorrect.''"
proof -
  have e1: "normalizeEmail (orEmpty (form_email (loginForm '' Reader@Example.org'' ''wrong''))) = ''reader@example.org''"
    by code_simp
  have e2: "normalizeEmail (orEmpty (form_email (loginForm ''nobody@example.org'' ''secret''))) = ''nobody@example.org''"
    by code_simp
  have n1: "normalizeEmail '' Reader@Example.org'' = ''reader@example.org''" by code_simp
  have n2: "normalizeEmail ''nobody@example.org'' = ''nobody@example.org''" by code_simp
  have p1: "orEmpty (form_password (loginForm '' Reader@Example.org'' ''wrong'')) = ''wrong''"
    by (simp add: loginForm_def orEmpty_def)
  have p2: "orEmpty (form_password (loginForm ''nobody@example.org'' ''secret'')) = ''secret''"
    by (simp add: loginForm_def orEmpty_def)
  have f1: "findUserByEmail oneUser ''reader@example.org'' = Some (hd (tbl_users oneUser))"
    by (simp add: findUserByEmail_def oneUser_def emptyDatabase_def)
  have f2: "findUserByEmail oneUser ''nobody@example.org'' = None"
    by (simp add: findUserByEmail_def oneUser_def emptyDatabase_def)
  have c1: "\<not> exampleCompare ''wrong'' (password_hash (hd (tbl_users oneUser)))"
    by (simp add: exampleCompare_def oneUser_def emptyDatabase_def)
  show ?thesis
    using login_same_message [of "loginForm '' Reader@Example.org'' ''wrong''" oneUser
        "hd (tbl_users oneUser)" exampleCompare "loginForm ''nobody@example.org'' ''secret''" oneUser
        anonymous anonymous]
    by (simp add: e1 e2 p1 p2 f1 f2 c1 n1 n2 errorOf_def)
qed

subsection \<open>Listings\<close>

lemma lex_pair_ge:
  fixes a b :: "'a::linorder \<times> 'b::linorder"
  assumes "b \<le> a"
  shows "fst b < fst a \<or> (fst a = fst b \<and> snd b \<le> snd a)"
  using assms by (cases a; cases b) (auto simp: less_eq_prod_def)

lemma newestFirst_rev_sort: "newestFirst (map k (rev (sort_key k xs)))"
proof -
  have "sorted (map k (sort_key k xs))"
    by (rule sorted_sort_key)
  then have "sorted_wrt (\<lambda>a b. b \<le> a) (rev (map k (sort_key k xs)))"
    by (simp add: sorted_wrt_rev)
  then have "sorted_wrt (\<lambda>a b. fst b < fst a \<or> (fst a = fst b \<and> snd b \<le> snd a))
               (rev (map k (sort_key k xs)))"
    by (rule sorted_wrt_mono_rel[rotated]) (rule lex_pair_ge)
  then show ?thesis by (simp add: newestFirst_def rev_map)
qed

lemma newestFirst_day:
  "newestFirst (map (\<lambda>r. (dayOf (c r), i r)) (rev (sort_key (\<lambda>r. (DATE_FORMAT (c r), i r)) xs)))"
proof -
  let ?k = "\<lambda>r. (DATE_FORMAT (c r), i r)"
  have "sorted (map ?k (sort_key ?k xs))"
    by (rule sorted_sort_key)
  then have "sorted_wrt (\<lambda>a b. b \<le> a) (rev (map ?k (sort_key ?k xs)))"
    by (simp add: sorted_wrt_rev)
  then have "sorted_wrt (\<lambda>a b. fst b < fst a \<or> (fst a = fst b \<and> snd b \<le> snd a))
               (rev (map ?k (sort_key ?k xs)))"
    by (rule sorted_wrt_mono_rel[rotated]) (rule lex_pair_ge)
  then have "sorted_wrt (\<lambda>a b. fst b < fst a \<or> (fst a = fst b \<and> snd b \<le> snd a))
               (map ?k (rev (sort_key ?k xs)))"
    by (simp add: rev_map)
  then show ?thesis
    by (simp add: newestFirst_def dayOf_def sorted_wrt_map less_prod_def)
qed

lemma by_day_then_id:
  assumes "newestFirst (map (\<lambda>r. (dayOf (c r), i r)) xs)"
  shows "sorted_wrt (\<lambda>a b. DATE_FORMAT (c b) \<le> DATE_FORMAT (c a)) xs
       \<and> sorted_wrt (\<lambda>a b. c a = c b \<longrightarrow> i b \<le> i a) xs"
proof -
  have s: "sorted_wrt (\<lambda>a b. fst (dayOf (c b)) < fst (dayOf (c a))
              \<or> (fst (dayOf (c a)) = fst (dayOf (c b)) \<and> i b \<le> i a)) xs"
    using assms by (simp add: newestFirst_def sorted_wrt_map less_prod_def dayOf_def)
  have "sorted_wrt (\<lambda>a b. DATE_FORMAT (c b) \<le> DATE_FORMAT (c a)) xs"
    using s by (rule sorted_wrt_mono_rel[rotated]) (auto simp: dayOf_def)
  moreover have "sorted_wrt (\<lambda>a b. c a = c b \<longrightarrow> i b \<le> i a) xs"
    using s by (rule sorted_wrt_mono_rel[rotated]) (auto simp: dayOf_def)
  ultimately show ?thesis by simp
qed

text \<open>
  Claim C6 says that every listing is newest first, ties by descending id. The questions
  of a story come in ascending id, so the older of two questions is first; and the
  stories, ordered by the formatted day, put the larger id first within a day even when
  the smaller id carries the later time.
\<close>

theorem listing_not_newest_first:
  "\<not> newestFirst (zip (map q_created_at (selectQuestionsOfStory twoQuestions 1))
                     (map q_id (selectQuestionsOfStory twoQuestions 1)))
   \<and> map view_id (getQuestionsForStory twoQuestions 1) = [1, 2]
   \<and> \<not> newestFirst (zip (map st_created_at (selectStoriesByDay twoStories))
                       (map st_id (selectStoriesByDay twoStories)))
   \<and> map item_id (getAllStories twoStories) = [5, 3]"
  by (simp add: newestFirst_def selectQuestionsOfStory_def selectStoriesByDay_def twoQuestions_def
      twoStories_def emptyDatabase_def DATE_FORMAT_def getQuestionsForStory_def getAllStories_def)

text \<open>
  Claim C6, amended. Story summaries are listed newest first by creation time, ties by
  descending id. Stories, vocabulary entries and grammar topics are listed by creation
  day, the latest day first, and rows with the same creation time by descending id. The
  questions of a story are listed by ascending id. Each listing holds every row of its
  table (for the questions, every row of the story) once.
\<close>

theorem listing_orders:
  "newestFirst (map (\<lambda>r. (st_created_at r, st_id r)) (selectStoriesByTime d))
   \<and> sorted_wrt (\<lambda>a b. DATE_FORMAT (st_created_at b) \<le> DATE_FORMAT (st_created_at a)) (selectStoriesByDay d)
   \<and> sorted_wrt (\<lambda>a b. st_created_at a = st_created_at b \<longrightarrow> st_id b \<le> st_id a) (selectStoriesByDay d)
   \<and> sorted_wrt (\<lambda>a b. DATE_FORMAT (v_created_at b) \<le> DATE_FORMAT (v_created_at a)) (selectVocabularyByDay d)
   \<and> sorted_wrt (\<lambda>a b. v_created_at a = v_created_at b \<longrightarrow> v_id b \<le> v_id a) (selectVocabularyByDay d)
   \<and> sorted_wrt (\<lambda>a b. DATE_FORMAT (g_created_at b) \<le> DATE_FORMAT (g_created_at a)) (selectGrammarByDay d)
   \<and> sorted_wrt (\<lambda>a b. g_created_at a = g_created_at b \<longrightarrow> g_id b \<le> g_id a) (selectGrammarByDay d)
   \<and> sorted (map q_id (selectQuestionsOfStory d storyId))
   \<and> mset (selectStoriesByDay d) = mset (tbl_stories d)
   \<and> mset (selectStoriesByTime d) = mset (tbl_stories d)
   \<and> mset (selectVocabularyByDay d) = mset (tbl_vocabulary d)
   \<and> mset (selectGrammarByDay d) = mset (tbl_grammar d)
   \<and> mset (selectQuestionsOfStory d storyId) = mset (filter (\<lambda>r. q_story_id r = storyId) (tbl_questions d))
   \<and> map item_id (getAllStories d) = map st_id (selectStoriesByDay d)
   \<and> map fst (getStorySummaries d) = map st_id (selectStoriesByTime d)
   \<and> map vi_id (getVocabularyEntries d) = map v_id (selectVocabularyByDay d)
   \<and> map gi_id (getGrammarTopics d) = map g_id (selectGrammarByDay d)
   \<and> map view_id (getQuestionsForStory d storyId) = map q_id (selectQuestionsOfStory d storyId)"
proof -
  have s: "newestFirst (map (\<lambda>r. (dayOf (st_created_at r), st_id r)) (selectStoriesByDay d))"
    and v: "newestFirst (map (\<lambda>r. (dayOf (v_created_at r), v_id r)) (selectVocabularyByDay d))"
    and g: "newestFirst (map (\<lambda>r. (dayOf (g_created_at r), g_id r)) (selectGrammarByDay d))"
    by (simp_all add: selectStoriesByDay_def selectVocabularyByDay_def selectGrammarByDay_def newestFirst_day)
  note by_day_then_id[OF s] by_day_then_id[OF v] by_day_then_id[OF g]
  then show ?thesis
    by (simp add: selectStoriesByDay_def selectStoriesByTime_def selectVocabularyByDay_def
      selectGrammarByDay_def selectQuestionsOfStory_def newestFirst_rev_sort
      getAllStories_def getStorySummaries_def getVocabularyEntries_def getGrammarTopics_def
      getQuestionsForStory_def comp_def)
qed

theorem listing_orders_witness:
  "map st_id (selectStoriesByDay sameSecondStories) = [5, 3]
   \<and> map st_created_at (selectStoriesByDay sameSecondStories) = [(100, 200), (100, 200)]
   \<and> sorted_wrt (\<lambda>a b. st_created_at a = st_created_at b \<longrightarrow> st_id b \<le> st_id a) (selectStoriesByDay sameSecondStories)
   \<and> map view_id (getQuestionsForStory twoQuestions 1) = [1, 2]"
proof -
  have a: "map st_id (selectStoriesByDay sameSecondStories) = [5, 3]
     \<and> map st_created_at (selectStoriesByDay sameSecondStories) = [(100, 200), (100, 200)]"
    by (simp add: selectStoriesByDay_def sameSecondStories_def emptyDatabase_def DATE_FORMAT_def)
  have b: "map view_id (getQuestionsForStory twoQuestions 1) = [1, 2]"
    by (simp add: getQuestionsForStory_def selectQuestionsOfStory_def twoQuestions_def emptyDatabase_def)
  from listing_orders[of sameSecondStories 1] a b show ?thesis by blast
qed

section \<open>Properties of the reconstruction of the questions\<close>

subsection \<open>The association list and the finite map it denotes\<close>


lemma modifyQuestion_keys [simp]: "map fst (modifyQuestion i f m) = map fst m"
  by (induction m) auto

lemma modifyQuestion_id [simp]: "modifyQuestion i (\<lambda>q. q) m = m"
  by (induction m) auto

lemma map_of_modifyQuestion:
  "map_of (modifyQuestion i f m) = (case map_of m i of None \<Rightarrow> map_of m | Some q \<Rightarrow> (map_of m)(i \<mapsto> f q))"
  by (induction m) (auto split: option.splits)

lemma ensureQuestion_keys:
  "map fst (ensureQuestion i m) = (if i \<in> set (map fst m) then map fst m else map fst m @ [i])"
  by (auto simp: ensureQuestion_def map_of_eq_None_iff split: option.splits)
    (metis domI domIff map_of_eq_None_iff)

lemma map_of_ensureQuestion:
  "map_of (ensureQuestion i m) = (map_of m)(i \<mapsto> (case map_of m i of None \<Rightarrow> emptyQuestion | Some q \<Rightarrow> q))"
  by (cases "map_of m i") (auto simp: ensureQuestion_def fun_eq_iff map_add_def split: option.splits)

lemma map_of_upsert:
  "map_of (modifyQuestion i f (ensureQuestion i m)) = upsert i f (map_of m)"
  by (auto simp: map_of_modifyQuestion map_of_ensureQuestion upsert_def split: option.splits)

lemma distinct_ensureQuestion:
  "distinct (map fst m) \<Longrightarrow> distinct (map fst (ensureQuestion i m))"
  by (simp add: ensureQuestion_keys)

lemma slotUpdate_fun:
  "slotUpdate PromptSlot v = (\<lambda>q. q\<lparr>prompt := trim v\<rparr>)"
  "slotUpdate CorrectSlot v = (\<lambda>q. q\<lparr>correctIndex := parseInt10 v\<rparr>)"
  "j < 4 \<Longrightarrow> slotUpdate (AnswerSlot j) v = (\<lambda>q. q\<lparr>answers := (answers q)[j := trim v]\<rparr>)"
  "\<not> j < 4 \<Longrightarrow> slotUpdate (AnswerSlot j) v = (\<lambda>q. q)"
  by (rule ext, simp)+

lemma bodyField_slot:
  "bodyField fv m = (case fieldSlot (fst fv) of None \<Rightarrow> m
                     | Some (i, s) \<Rightarrow> modifyQuestion i (slotUpdate s (snd fv)) (ensureQuestion i m))"
  by (auto simp: bodyField_def fieldSlot_def slotUpdate_fun split: option.splits)

lemma fileField_slot:
  "fileField f m = (case fileIndex f of None \<Rightarrow> m
                    | Some i \<Rightarrow> modifyQuestion i (\<lambda>q. q\<lparr>file_q := Some f\<rparr>) (ensureQuestion i m))"
  by (simp add: fileField_def fileIndex_def split: option.splits)

lemma map_of_bodyField: "map_of (bodyField fv m) = bodyStep fv (map_of m)"
  by (simp add: bodyField_slot bodyStep_def map_of_upsert split: option.splits)

lemma map_of_fileField: "map_of (fileField f m) = fileStep f (map_of m)"
  by (simp add: fileField_slot fileStep_def map_of_upsert split: option.splits)

lemma distinct_bodyField: "distinct (map fst m) \<Longrightarrow> distinct (map fst (bodyField fv m))"
  by (auto simp: bodyField_slot distinct_ensureQuestion split: option.splits)

lemma distinct_fileField: "distinct (map fst m) \<Longrightarrow> distinct (map fst (fileField f m))"
  by (auto simp: fileField_slot distinct_ensureQuestion split: option.splits)

lemma map_of_fold_bodyField: "map_of (fold bodyField b m) = fold bodyStep b (map_of m)"
  by (induction b arbitrary: m) (simp_all add: map_of_bodyField)

lemma map_of_fold_fileField: "map_of (fold fileField fs m) = fold fileStep fs (map_of m)"
  by (induction fs arbitrary: m) (simp_all add: map_of_fileField)

lemma distinct_fold_bodyField: "distinct (map fst m) \<Longrightarrow> distinct (map fst (fold bodyField b m))"
  by (induction b arbitrary: m) (simp_all add: distinct_bodyField)

lemma distinct_fold_fileField: "distinct (map fst m) \<Longrightarrow> distinct (map fst (fold fileField fs m))"
  by (induction fs arbitrary: m) (simp_all add: distinct_fileField)

lemma distinct_questionMap: "distinct (map fst (questionMap b fs))"
  by (simp add: questionMap_def distinct_fold_fileField distinct_fold_bodyField)

lemma map_of_questionMap: "map_of (questionMap b fs) = fold fileStep fs (fold bodyStep b Map.empty)"
  by (simp add: questionMap_def map_of_fold_fileField map_of_fold_bodyField)

lemma sortedEntries_sorted: "sorted (map fst (sortedEntries b fs))"
  by (simp add: sortedEntries_def)

lemma sortedEntries_distinct: "distinct (map fst (sortedEntries b fs))"
  using distinct_questionMap[of b fs]
  by (simp add: sortedEntries_def distinct_map)

lemma sortedEntries_set: "set (sortedEntries b fs) = set (questionMap b fs)"
  by (simp add: sortedEntries_def)

text \<open>The sorted entries are determined by the finite map.\<close>

lemma sortedEntries_cong:
  assumes "map_of (questionMap b fs) = map_of (questionMap b' fs')"
  shows "sortedEntries b fs = sortedEntries b' fs'"
proof -
  have s: "set (questionMap b fs) = set (questionMap b' fs')"
    using assms distinct_questionMap map_of_inject_set by blast
  have inj: "inj_on fst (set (sortedEntries b fs) \<union> set (sortedEntries b' fs'))"
    using distinct_questionMap[of b fs] s
    by (simp add: sortedEntries_set distinct_map)
  show ?thesis
    by (rule map_sorted_distinct_set_unique[OF inj])
      (simp_all add: sortedEntries_sorted sortedEntries_distinct sortedEntries_set s)
qed

subsection \<open>Steps on the finite map\<close>

lemma upsert_other: "k \<noteq> i \<Longrightarrow> upsert i f M k = M k"
  by (simp add: upsert_def)

lemma upsert_same: "upsert i f M i = Some (f (case M i of None \<Rightarrow> emptyQuestion | Some q \<Rightarrow> q))"
  by (simp add: upsert_def)

lemma upsert_commute_keys: "i \<noteq> j \<Longrightarrow> upsert i f (upsert j g M) = upsert j g (upsert i f M)"
  by (auto simp: upsert_def fun_eq_iff)

lemma upsert_commute_funs:
  "(\<And>q. f (g q) = g (f q)) \<Longrightarrow> upsert i f (upsert i g M) = upsert i g (upsert i f M)"
  by (auto simp: upsert_def fun_eq_iff)

lemma slotUpdate_commute:
  "s \<noteq> s' \<Longrightarrow> slotUpdate s v (slotUpdate s' v' q) = slotUpdate s' v' (slotUpdate s v q)"
  by (cases s; cases s') (auto simp: list_update_swap)

lemma bodyStep_none: "fieldSlot (fst fv) = None \<Longrightarrow> bodyStep fv M = M"
  by (simp add: bodyStep_def)

lemma bodyStep_other: "fieldIndex (fst fv) \<noteq> Some k \<Longrightarrow> bodyStep fv M k = M k"
  by (auto simp: bodyStep_def fieldIndex_def upsert_other split: option.splits)

lemma bodyStep_local: "M k = M' k \<Longrightarrow> bodyStep fv M k = bodyStep fv M' k"
  by (auto simp: bodyStep_def upsert_def split: option.splits)

lemma fileStep_other: "fileIndex f \<noteq> Some k \<Longrightarrow> fileStep f M k = M k"
  by (auto simp: fileStep_def upsert_other split: option.splits)

lemma fileStep_local: "M k = M' k \<Longrightarrow> fileStep f M k = fileStep f M' k"
  by (auto simp: fileStep_def upsert_def split: option.splits)

lemma bodyStep_commute:
  assumes "fieldSlot (fst x) \<noteq> fieldSlot (fst y) \<or> x = y"
  shows "bodyStep x (bodyStep y M) = bodyStep y (bodyStep x M)"
proof (cases "x = y")
  case True
  then show ?thesis by simp
next
  case False
  with assms have ne: "fieldSlot (fst x) \<noteq> fieldSlot (fst y)" by simp
  show ?thesis
  proof (cases "fieldSlot (fst x)")
    case None
    then show ?thesis by (simp add: bodyStep_def)
  next
    case sx: (Some a)
    show ?thesis
    proof (cases "fieldSlot (fst y)")
      case None
      then show ?thesis by (simp add: bodyStep_def)
    next
      case sy: (Some b)
      obtain i s where a: "a = (i, s)" by (cases a)
      obtain j t where b: "b = (j, t)" by (cases b)
      show ?thesis
      proof (cases "i = j")
        case True
        with ne sx sy a b have "s \<noteq> t" by simp
        then show ?thesis
          using True sx sy a b
          by (simp add: bodyStep_def upsert_commute_funs slotUpdate_commute)
      next
        case False
        then show ?thesis
          using sx sy a b by (simp add: bodyStep_def upsert_commute_keys)
      qed
    qed
  qed
qed

lemma fileStep_commute:
  assumes "fileIndex f \<noteq> fileIndex g \<or> f = g"
  shows "fileStep f (fileStep g M) = fileStep g (fileStep f M)"
  using assms
  by (cases "f = g") (auto simp: fileStep_def upsert_commute_keys split: option.splits)

lemma distinct_filter_map_inj:
  "distinct (filter P (map g xs)) \<Longrightarrow> x \<in> set xs \<Longrightarrow> y \<in> set xs \<Longrightarrow> g x = g y \<Longrightarrow> P (g x) \<Longrightarrow> x = y"
proof (induction xs)
  case Nil
  then show ?case by simp
next
  case (Cons a xs)
  have notin: "g a \<notin> set (filter P (map g xs))" if "P (g a)"
    using Cons.prems(1) that by simp
  have d: "distinct (filter P (map g xs))"
    using Cons.prems(1) by (simp split: if_splits)
  show ?case
  proof (cases "x = a")
    case xa: True
    show ?thesis
    proof (cases "y = a")
      case True
      with xa show ?thesis by simp
    next
      case False
      with Cons.prems(3) have "y \<in> set xs" by simp
      then have "g y \<in> set (filter P (map g xs))"
        using Cons.prems(4,5) by simp
      with notin xa Cons.prems(4,5) show ?thesis by simp
    qed
  next
    case xna: False
    with Cons.prems(2) have xin: "x \<in> set xs" by simp
    show ?thesis
    proof (cases "y = a")
      case True
      from xin have "g x \<in> set (filter P (map g xs))"
        using Cons.prems(5) by simp
      with notin True Cons.prems(4,5) show ?thesis by simp
    next
      case False
      with Cons.prems(3) have "y \<in> set xs" by simp
      with Cons.IH[OF d xin _ Cons.prems(4,5)] show ?thesis by simp
    qed
  qed
qed

lemma fold_bodyStep_perm:
  assumes "mset b' = mset b" and "distinct (bodySlots b)"
  shows "fold bodyStep b' = fold bodyStep b"
proof (rule fold_multiset_equiv[symmetric])
  show "mset b = mset b'" using assms(1) by simp
next
  fix x y assume xy: "x \<in> set b" "y \<in> set b"
  have "fieldSlot (fst x) \<noteq> fieldSlot (fst y) \<or> x = y \<or> fieldSlot (fst x) = None"
    using distinct_filter_map_inj[of "\<lambda>s. s \<noteq> None" "\<lambda>fv. fieldSlot (fst fv)" b x y] assms(2) xy
    by (auto simp: bodySlots_def)
  then show "bodyStep x \<circ> bodyStep y = bodyStep y \<circ> bodyStep x"
  proof (cases "fieldSlot (fst x) = None")
    case False
    with \<open>fieldSlot (fst x) \<noteq> fieldSlot (fst y) \<or> x = y \<or> fieldSlot (fst x) = None\<close>
    have "fieldSlot (fst x) \<noteq> fieldSlot (fst y) \<or> x = y" by simp
    then have "\<And>M. bodyStep x (bodyStep y M) = bodyStep y (bodyStep x M)"
      by (rule bodyStep_commute)
    then show ?thesis by (simp add: comp_def)
  next
    case True
    then have "\<And>M. bodyStep x M = M" by (simp add: bodyStep_none)
    then show ?thesis by (simp add: comp_def)
  qed
qed

lemma fold_fileStep_perm:
  assumes "mset fs' = mset fs" and "distinct (fileSlots fs)"
  shows "fold fileStep fs' = fold fileStep fs"
proof (rule fold_multiset_equiv[symmetric])
  show "mset fs = mset fs'" using assms(1) by simp
next
  fix x y assume xy: "x \<in> set fs" "y \<in> set fs"
  have "fileIndex x \<noteq> fileIndex y \<or> x = y \<or> fileIndex x = None"
    using distinct_filter_map_inj[of "\<lambda>s. s \<noteq> None" fileIndex fs x y] assms(2) xy
    by (auto simp: fileSlots_def)
  then show "fileStep x \<circ> fileStep y = fileStep y \<circ> fileStep x"
  proof (cases "fileIndex x = None")
    case False
    with \<open>fileIndex x \<noteq> fileIndex y \<or> x = y \<or> fileIndex x = None\<close>
    have "fileIndex x \<noteq> fileIndex y \<or> x = y" by simp
    then have "\<And>M. fileStep x (fileStep y M) = fileStep y (fileStep x M)"
      by (rule fileStep_commute)
    then show ?thesis by (simp add: comp_def)
  next
    case True
    then have "\<And>M. fileStep x M = M" by (simp add: fileStep_def)
    then show ?thesis by (simp add: comp_def)
  qed
qed

lemma parse_perm:
  assumes "mset b' = mset b" "distinct (bodySlots b)" "mset fs' = mset fs" "distinct (fileSlots fs)"
  shows "parseStoryQuestions b' fs' = parseStoryQuestions b fs"
proof -
  have "fold bodyStep b' = fold bodyStep b"
    using assms(1,2) by (rule fold_bodyStep_perm)
  moreover have "fold fileStep fs' = fold fileStep fs"
    using assms(3,4) by (rule fold_fileStep_perm)
  ultimately have "map_of (questionMap b' fs') = map_of (questionMap b fs)"
    by (simp only: map_of_questionMap)
  then have "sortedEntries b' fs' = sortedEntries b fs"
    by (rule sortedEntries_cong)
  then show ?thesis
    by (simp only: parseStoryQuestions_def)
qed

subsection \<open>Fields that match no pattern\<close>

lemma fold_bodyStep_filter_matching:
  "fold bodyStep (filter (\<lambda>fv. fieldIndex (fst fv) \<noteq> None) b) M = fold bodyStep b M"
proof (induction b arbitrary: M)
  case Nil
  then show ?case by simp
next
  case (Cons a b)
  show ?case
  proof (cases "fieldSlot (fst a)")
    case None
    then have "bodyStep a M = M" by (rule bodyStep_none)
    with None Cons.IH show ?thesis by (simp add: fieldIndex_def)
  next
    case (Some x)
    with Cons.IH show ?thesis by (simp add: fieldIndex_def)
  qed
qed

lemma fold_fileStep_filter_matching:
  "fold fileStep (filter (\<lambda>f. fileIndex f \<noteq> None) fs) M = fold fileStep fs M"
proof (induction fs arbitrary: M)
  case Nil
  then show ?case by simp
next
  case (Cons a fs)
  show ?case
  proof (cases "fileIndex a")
    case None
    then have "fileStep a M = M" by (simp add: fileStep_def)
    with None Cons.IH show ?thesis by simp
  next
    case (Some x)
    with Cons.IH show ?thesis by simp
  qed
qed

lemma parse_matching_only:
  "parseStoryQuestions (filter (\<lambda>fv. fieldIndex (fst fv) \<noteq> None) b) (filter (\<lambda>f. fileIndex f \<noteq> None) fs)
     = parseStoryQuestions b fs"
proof -
  have "map_of (questionMap (filter (\<lambda>fv. fieldIndex (fst fv) \<noteq> None) b) (filter (\<lambda>f. fileIndex f \<noteq> None) fs))
          = map_of (questionMap b fs)"
    by (simp only: map_of_questionMap fold_bodyStep_filter_matching fold_fileStep_filter_matching)
  then have "sortedEntries (filter (\<lambda>fv. fieldIndex (fst fv) \<noteq> None) b) (filter (\<lambda>f. fileIndex f \<noteq> None) fs)
               = sortedEntries b fs"
    by (rule sortedEntries_cong)
  then show ?thesis
    by (simp only: parseStoryQuestions_def)
qed

subsection \<open>The indices present\<close>

lemma dom_upsert: "dom (upsert i f M) = insert i (dom M)"
  by (auto simp: upsert_def)

lemma dom_bodyStep: "dom (bodyStep fv M) = dom M \<union> {k. fieldIndex (fst fv) = Some k}"
  by (auto simp: bodyStep_def fieldIndex_def dom_upsert split: option.splits)

lemma dom_fileStep: "dom (fileStep f M) = dom M \<union> {k. fileIndex f = Some k}"
  by (auto simp: fileStep_def dom_upsert split: option.splits)

lemma dom_fold_bodyStep:
  "dom (fold bodyStep b M) = dom M \<union> {k. \<exists>fv \<in> set b. fieldIndex (fst fv) = Some k}"
  by (induction b arbitrary: M) (auto simp: dom_bodyStep)

lemma dom_fold_fileStep:
  "dom (fold fileStep fs M) = dom M \<union> {k. \<exists>f \<in> set fs. fileIndex f = Some k}"
  by (induction fs arbitrary: M) (auto simp: dom_fileStep)

lemma sortedEntries_keys:
  "set (map fst (sortedEntries b fs))
     = {k. \<exists>fv \<in> set b. fieldIndex (fst fv) = Some k} \<union> {k. \<exists>f \<in> set fs. fileIndex f = Some k}"
proof -
  have "set (map fst (sortedEntries b fs)) = dom (map_of (questionMap b fs))"
    by (simp add: sortedEntries_set dom_map_of_conv_image_fst)
  then show ?thesis
    by (simp add: map_of_questionMap dom_fold_fileStep dom_fold_bodyStep)
qed

subsection \<open>Invariants of the reconstructed questions\<close>

lemma in_questionMap_iff: "(k, q) \<in> set (questionMap b fs) \<longleftrightarrow> map_of (questionMap b fs) k = Some q"
  using distinct_questionMap[of b fs] by (auto dest: map_of_SomeD)

lemma slotUpdate_length: "length (answers (slotUpdate s v q)) = length (answers q)"
  by (cases s) auto

lemma fold_invariant:
  assumes "P M" and "\<And>x M. x \<in> set xs \<Longrightarrow> P M \<Longrightarrow> P (f x M)"
  shows "P (fold f xs M)"
  using assms by (induction xs arbitrary: M) auto

lemma answers_length_upsert:
  fixes M :: "nat \<rightharpoonup> question"
  assumes "\<And>q. length (answers (f q)) = length (answers q)"
    and "\<forall>k q. M k = Some q \<longrightarrow> length (answers q) = 4"
  shows "\<forall>k q. upsert i f M k = Some q \<longrightarrow> length (answers q) = 4"
proof (intro allI impI)
  fix k q assume u: "upsert i f M k = Some q"
  show "length (answers q) = 4"
  proof (cases "k = i")
    case True
    with u have "q = f (case M i of None \<Rightarrow> emptyQuestion | Some p \<Rightarrow> p)"
      by (simp add: upsert_def)
    moreover have "length (answers (case M i of None \<Rightarrow> emptyQuestion | Some p \<Rightarrow> p)) = 4"
      using assms(2) by (cases "M i") (simp_all add: emptyQuestion_def)
    ultimately show ?thesis using assms(1) by simp
  next
    case False
    with u have "M k = Some q" by (simp add: upsert_def)
    with assms(2) show ?thesis by blast
  qed
qed

lemma answers_length_bodyStep:
  fixes M :: "nat \<rightharpoonup> question"
  assumes "\<forall>k q. M k = Some q \<longrightarrow> length (answers q) = 4"
  shows "\<forall>k q. bodyStep fv M k = Some q \<longrightarrow> length (answers q) = 4"
proof (cases "fieldSlot (fst fv)")
  case None
  with assms show ?thesis by (simp add: bodyStep_def)
next
  case (Some a)
  obtain i s where a: "a = (i, s)" by (cases a)
  have "\<forall>k q. upsert i (slotUpdate s (snd fv)) M k = Some q \<longrightarrow> length (answers q) = 4"
    using assms by (rule answers_length_upsert[rotated]) (rule slotUpdate_length)
  with Some a show ?thesis by (simp add: bodyStep_def)
qed

lemma answers_length_fileStep:
  fixes M :: "nat \<rightharpoonup> question"
  assumes "\<forall>k q. M k = Some q \<longrightarrow> length (answers q) = 4"
  shows "\<forall>k q. fileStep f M k = Some q \<longrightarrow> length (answers q) = 4"
proof (cases "fileIndex f")
  case None
  with assms show ?thesis by (simp add: fileStep_def)
next
  case (Some i)
  have "\<forall>k q. upsert i (\<lambda>q. q\<lparr>file_q := Some f\<rparr>) M k = Some q \<longrightarrow> length (answers q) = 4"
    using assms by (rule answers_length_upsert[rotated]) simp
  with Some show ?thesis by (simp add: fileStep_def)
qed

lemma answers_length_questionMap:
  "(k, q) \<in> set (questionMap b fs) \<Longrightarrow> length (answers q) = 4"
proof -
  have "\<forall>k q. fold bodyStep b Map.empty k = Some q \<longrightarrow> length (answers q) = 4"
    by (rule fold_invariant[where P = "\<lambda>M. \<forall>k q. M k = Some q \<longrightarrow> length (answers q) = 4"])
      (simp, rule answers_length_bodyStep)
  then have "\<forall>k q. fold fileStep fs (fold bodyStep b Map.empty) k = Some q \<longrightarrow> length (answers q) = 4"
    by (rule fold_invariant[where P = "\<lambda>M. \<forall>k q. M k = Some q \<longrightarrow> length (answers q) = 4"])
      (rule answers_length_fileStep)
  then show "(k, q) \<in> set (questionMap b fs) \<Longrightarrow> length (answers q) = 4"
    by (simp add: in_questionMap_iff map_of_questionMap)
qed

lemma parse_subset: "q \<in> set (parseStoryQuestions b fs) \<longleftrightarrow> (\<exists>k. (k, q) \<in> set (questionMap b fs)) \<and> hasContent q"
  by (force simp: parseStoryQuestions_def sortedEntries_set image_iff)

lemma answers_length_parse: "q \<in> set (parseStoryQuestions b fs) \<Longrightarrow> length (answers q) = 4"
  by (auto simp: parse_subset answers_length_questionMap)

subsection \<open>The default of the correct index\<close>

lemma correct_default_bodyStep:
  fixes M :: "nat \<rightharpoonup> question"
  assumes "fieldSlot (fst fv) \<noteq> Some (k, CorrectSlot)"
    and "\<forall>q. M k = Some q \<longrightarrow> correctIndex q = Finite 0"
  shows "\<forall>q. bodyStep fv M k = Some q \<longrightarrow> correctIndex q = Finite 0"
proof (cases "fieldSlot (fst fv)")
  case None
  with assms show ?thesis by (simp add: bodyStep_def)
next
  case (Some a)
  obtain i s where a: "a = (i, s)" by (cases a)
  show ?thesis
  proof (cases "i = k")
    case True
    with Some a assms(1) have "s \<noteq> CorrectSlot" by simp
    then have "\<And>q. correctIndex (slotUpdate s (snd fv) q) = correctIndex q"
      by (cases s) auto
    with Some a True assms(2) show ?thesis
      by (auto simp: bodyStep_def upsert_def emptyQuestion_def split: option.splits)
  next
    case False
    with Some a assms(2) show ?thesis
      by (simp add: bodyStep_def upsert_other)
  qed
qed

lemma correct_default_fileStep:
  fixes M :: "nat \<rightharpoonup> question"
  assumes "\<forall>q. M k = Some q \<longrightarrow> correctIndex q = Finite 0"
  shows "\<forall>q. fileStep f M k = Some q \<longrightarrow> correctIndex q = Finite 0"
  using assms by (auto simp: fileStep_def upsert_def emptyQuestion_def split: option.splits if_splits)

lemma correct_default:
  assumes "(k, q) \<in> set (questionMap b fs)"
    and "\<forall>fv \<in> set b. fieldSlot (fst fv) \<noteq> Some (k, CorrectSlot)"
  shows "correctIndex q = Finite 0"
proof -
  have "\<forall>q. fold bodyStep b Map.empty k = Some q \<longrightarrow> correctIndex q = Finite 0"
  proof (rule fold_invariant[where P = "\<lambda>M. \<forall>q. M k = Some q \<longrightarrow> correctIndex q = Finite 0"])
    show "\<forall>q. Map.empty k = Some q \<longrightarrow> correctIndex q = Finite 0" by simp
  next
    fix x and M :: "nat \<rightharpoonup> question" assume "x \<in> set b" and M: "\<forall>q. M k = Some q \<longrightarrow> correctIndex q = Finite 0"
    then have "fieldSlot (fst x) \<noteq> Some (k, CorrectSlot)" using assms(2) by blast
    then show "\<forall>q. bodyStep x M k = Some q \<longrightarrow> correctIndex q = Finite 0"
      using M by (rule correct_default_bodyStep)
  qed
  then have "\<forall>q. fold fileStep fs (fold bodyStep b Map.empty) k = Some q \<longrightarrow> correctIndex q = Finite 0"
    by (rule fold_invariant[where P = "\<lambda>M. \<forall>q. M k = Some q \<longrightarrow> correctIndex q = Finite 0"])
      (rule correct_default_fileStep)
  with assms(1) show ?thesis
    by (simp add: in_questionMap_iff map_of_questionMap)
qed

subsection \<open>Removing the fields of one index\<close>

lemma fold_bodyStep_other_index:
  assumes "M k = M' k" and "k \<noteq> i"
  shows "fold bodyStep (filter (\<lambda>fv. fieldIndex (fst fv) \<noteq> Some i) b) M k = fold bodyStep b M' k"
  using assms(1)
proof (induction b arbitrary: M M')
  case Nil
  then show ?case by simp
next
  case (Cons a b)
  show ?case
  proof (cases "fieldIndex (fst a) = Some i")
    case True
    then have "fieldIndex (fst a) \<noteq> Some k" using assms(2) by simp
    then have "bodyStep a M' k = M' k" by (rule bodyStep_other)
    with Cons.prems have "M k = bodyStep a M' k" by simp
    then have "fold bodyStep (filter (\<lambda>fv. fieldIndex (fst fv) \<noteq> Some i) b) M k = fold bodyStep b (bodyStep a M') k"
      by (rule Cons.IH[of M "bodyStep a M'"])
    with True show ?thesis by simp
  next
    case False
    have "bodyStep a M k = bodyStep a M' k" using Cons.prems by (rule bodyStep_local)
    then have "fold bodyStep (filter (\<lambda>fv. fieldIndex (fst fv) \<noteq> Some i) b) (bodyStep a M) k
                 = fold bodyStep b (bodyStep a M') k"
      by (rule Cons.IH[of "bodyStep a M" "bodyStep a M'"])
    with False show ?thesis by simp
  qed
qed

lemma fold_bodyStep_removed_index:
  "M i = None \<Longrightarrow> fold bodyStep (filter (\<lambda>fv. fieldIndex (fst fv) \<noteq> Some i) b) M i = None"
proof (induction b arbitrary: M)
  case Nil
  then show ?case by simp
next
  case (Cons a b)
  show ?case
  proof (cases "fieldIndex (fst a) = Some i")
    case True
    with Cons show ?thesis by simp
  next
    case False
    then have "bodyStep a M i = M i" by (rule bodyStep_other)
    with Cons False show ?thesis by simp
  qed
qed

lemma fold_fileStep_local:
  "M k = M' k \<Longrightarrow> fold fileStep fs M k = fold fileStep fs M' k"
proof (induction fs arbitrary: M M')
  case Nil
  then show ?case by simp
next
  case (Cons a fs)
  have "fileStep a M k = fileStep a M' k" using Cons.prems by (rule fileStep_local)
  then have "fold fileStep fs (fileStep a M) k = fold fileStep fs (fileStep a M') k"
    by (rule Cons.IH[of "fileStep a M" "fileStep a M'"])
  then show ?case by simp
qed

lemma blank_fileStep:
  fixes M :: "nat \<rightharpoonup> question"
  assumes "\<forall>q. M k = Some q \<longrightarrow> \<not> hasContent q"
  shows "\<forall>q. fileStep f M k = Some q \<longrightarrow> \<not> hasContent q"
  using assms by (auto simp: fileStep_def upsert_def emptyQuestion_def hasContent_def split: option.splits if_splits)

lemma filter_sorted_entries_eq:
  assumes "\<And>k q. hasContent q \<Longrightarrow> (k, q) \<in> set (questionMap b fs) \<longleftrightarrow> (k, q) \<in> set (questionMap b' fs')"
  shows "parseStoryQuestions b fs = parseStoryQuestions b' fs'"
proof -
  let ?xs = "filter (\<lambda>e. hasContent (snd e)) (sortedEntries b fs)"
  let ?ys = "filter (\<lambda>e. hasContent (snd e)) (sortedEntries b' fs')"
  have s: "set ?xs = set ?ys"
    using assms by (auto simp: sortedEntries_set)
  have dx: "distinct (map fst ?xs)" and dy: "distinct (map fst ?ys)"
    using sortedEntries_distinct by (simp_all add: distinct_map_filter)
  have sx: "sorted (map fst ?xs)" and sy: "sorted (map fst ?ys)"
    using sortedEntries_sorted by (simp_all add: sorted_map sorted_wrt_filter)
  have inj: "inj_on fst (set ?xs \<union> set ?ys)"
    using dx s by (simp add: distinct_map)
  have "?xs = ?ys"
    by (rule map_sorted_distinct_set_unique[OF inj sx dx sy dy s])
  then have "map snd ?xs = map snd ?ys" by simp
  then show ?thesis
    by (simp add: parseStoryQuestions_def filter_map comp_def)
qed

lemma drop_blank_fields:
  assumes "(i, q) \<in> set (questionMap b fs)" and "\<not> hasContent q"
  shows "parseStoryQuestions (filter (\<lambda>fv. fieldIndex (fst fv) \<noteq> Some i) b) fs = parseStoryQuestions b fs"
proof (rule filter_sorted_entries_eq)
  fix k p assume p: "hasContent p"
  let ?b' = "filter (\<lambda>fv. fieldIndex (fst fv) \<noteq> Some i) b"
  show "(k, p) \<in> set (questionMap ?b' fs) \<longleftrightarrow> (k, p) \<in> set (questionMap b fs)"
  proof (cases "k = i")
    case False
    have "fold bodyStep ?b' Map.empty k = fold bodyStep b Map.empty k"
      by (rule fold_bodyStep_other_index) (simp, rule False)
    then have "fold fileStep fs (fold bodyStep ?b' Map.empty) k = fold fileStep fs (fold bodyStep b Map.empty) k"
      by (rule fold_fileStep_local)
    then show ?thesis
      by (simp add: in_questionMap_iff map_of_questionMap)
  next
    case True
    have "fold bodyStep ?b' Map.empty i = None"
      by (rule fold_bodyStep_removed_index) simp
    then have "\<forall>q. fold bodyStep ?b' Map.empty i = Some q \<longrightarrow> \<not> hasContent q" by simp
    then have "\<forall>q. fold fileStep fs (fold bodyStep ?b' Map.empty) i = Some q \<longrightarrow> \<not> hasContent q"
      by (rule fold_invariant[where P = "\<lambda>M. \<forall>q. M i = Some q \<longrightarrow> \<not> hasContent q"])
        (rule blank_fileStep)
    then have l: "(i, p) \<notin> set (questionMap ?b' fs)"
      using p by (auto simp: in_questionMap_iff map_of_questionMap)
    have "map_of (questionMap b fs) i = Some q"
      using assms(1) by (simp add: in_questionMap_iff)
    then have r: "(i, p) \<notin> set (questionMap b fs)"
      using p assms(2) by (auto simp: in_questionMap_iff)
    from l r True show ?thesis by simp
  qed
qed

section \<open>Properties of the story-authoring workflow\<close>


subsection \<open>Validation of the questions\<close>

lemma validateQuestions_messages:
  "validateQuestions qs = Some m \<Longrightarrow> m = msgPromptAnswers \<or> m = msgCorrect"
  by (induction qs) (auto split: if_splits)

lemma validateQuestions_None:
  "validateQuestions qs = None \<longleftrightarrow>
     list_all (\<lambda>q. prompt q \<noteq> [] \<and> \<not> list_ex (\<lambda>a. a = []) (answers q)
                  \<and> \<not> (isNaN (correctIndex q) \<or> numLess (correctIndex q) 0 \<or> numGreater (correctIndex q) 3)) qs"
  by (induction qs) auto

lemma validateQuestions_bad_index:
  "list_ex (\<lambda>q. isNaN (correctIndex q) \<or> numLess (correctIndex q) 0 \<or> numGreater (correctIndex q) 3) qs
   \<Longrightarrow> validateQuestions qs \<noteq> None"
  by (induction qs) auto

lemma msg_distinct: "msgCorrect \<noteq> msgPromptAnswers"
  by (simp add: msgCorrect_def msgPromptAnswers_def)

lemma validateQuestions_correct_iff:
  "validateQuestions qs = Some msgCorrect \<longleftrightarrow>
     (\<exists>qs1 q qs2. qs = qs1 @ q # qs2 \<and> validateQuestions qs1 = None
        \<and> prompt q \<noteq> [] \<and> \<not> list_ex (\<lambda>a. a = []) (answers q)
        \<and> (isNaN (correctIndex q) \<or> numLess (correctIndex q) 0 \<or> numGreater (correctIndex q) 3))"
proof (induction qs)
  case Nil
  then show ?case by simp
next
  case (Cons a qs)
  show ?case
  proof (cases "prompt a = [] \<or> list_ex (\<lambda>a. a = []) (answers a)")
    case True
    then have l: "validateQuestions (a # qs) \<noteq> Some msgCorrect"
      using msg_distinct by auto
    have "\<not> (\<exists>qs1 q qs2. a # qs = qs1 @ q # qs2 \<and> validateQuestions qs1 = None
        \<and> prompt q \<noteq> [] \<and> \<not> list_ex (\<lambda>a. a = []) (answers q)
        \<and> (isNaN (correctIndex q) \<or> numLess (correctIndex q) 0 \<or> numGreater (correctIndex q) 3))"
    proof
      assume "\<exists>qs1 q qs2. a # qs = qs1 @ q # qs2 \<and> validateQuestions qs1 = None
        \<and> prompt q \<noteq> [] \<and> \<not> list_ex (\<lambda>a. a = []) (answers q)
        \<and> (isNaN (correctIndex q) \<or> numLess (correctIndex q) 0 \<or> numGreater (correctIndex q) 3)"
      then obtain qs1 q qs2 where e: "a # qs = qs1 @ q # qs2" and v: "validateQuestions qs1 = None"
        and p: "prompt q \<noteq> []" "\<not> list_ex (\<lambda>a. a = []) (answers q)" by blast
      show False
      proof (cases qs1)
        case Nil
        with e p True show False by simp
      next
        case (Cons x xs)
        with e have "x = a" by simp
        with Cons v True show False by (simp split: if_splits)
      qed
    qed
    with l show ?thesis by blast
  next
    case complete: False
    show ?thesis
    proof (cases "isNaN (correctIndex a) \<or> numLess (correctIndex a) 0 \<or> numGreater (correctIndex a) 3")
      case True
      with complete have l: "validateQuestions (a # qs) = Some msgCorrect" by simp
      have "a # qs = [] @ a # qs \<and> validateQuestions [] = None" by simp
      with complete True l show ?thesis by blast
    next
      case False
      with complete have l: "validateQuestions (a # qs) = validateQuestions qs" by simp
      have "(\<exists>qs1 q qs2. a # qs = qs1 @ q # qs2 \<and> validateQuestions qs1 = None
        \<and> prompt q \<noteq> [] \<and> \<not> list_ex (\<lambda>a. a = []) (answers q)
        \<and> (isNaN (correctIndex q) \<or> numLess (correctIndex q) 0 \<or> numGreater (correctIndex q) 3))
        \<longleftrightarrow> (\<exists>qs1 q qs2. qs = qs1 @ q # qs2 \<and> validateQuestions qs1 = None
        \<and> prompt q \<noteq> [] \<and> \<not> list_ex (\<lambda>a. a = []) (answers q)
        \<and> (isNaN (correctIndex q) \<or> numLess (correctIndex q) 0 \<or> numGreater (correctIndex q) 3))"
        (is "?L \<longleftrightarrow> ?R")
      proof
        assume ?L
        then obtain qs1 q qs2 where e: "a # qs = qs1 @ q # qs2" and v: "validateQuestions qs1 = None"
          and p: "prompt q \<noteq> []" "\<not> list_ex (\<lambda>a. a = []) (answers q)"
            "isNaN (correctIndex q) \<or> numLess (correctIndex q) 0 \<or> numGreater (correctIndex q) 3" by blast
        show ?R
        proof (cases qs1)
          case Nil
          with e p False show ?thesis by simp
        next
          case (Cons x xs)
          with e have x: "x = a" "qs = xs @ q # qs2" by simp_all
          with Cons v complete False have "validateQuestions xs = None" by simp
          with x p show ?thesis by blast
        qed
      next
        assume ?R
        then obtain qs1 q qs2 where e: "qs = qs1 @ q # qs2" and v: "validateQuestions qs1 = None"
          and p: "prompt q \<noteq> []" "\<not> list_ex (\<lambda>a. a = []) (answers q)"
            "isNaN (correctIndex q) \<or> numLess (correctIndex q) 0 \<or> numGreater (correctIndex q) 3" by blast
        have "a # qs = (a # qs1) @ q # qs2" using e by simp
        moreover have "validateQuestions (a # qs1) = None" using v complete False by simp
        ultimately show ?L using p by blast
      qed
      with l Cons.IH show ?thesis by simp
    qed
  qed
qed

subsection \<open>The inserts of the transaction\<close>

lemma length4: "length xs = 4 \<Longrightarrow> \<exists>a b c e. xs = [a, b, c, e]"
  by (cases xs; simp; cases "tl xs"; simp; cases "tl (tl xs)"; simp; cases "tl (tl (tl xs))"; simp)

lemma createQuestion_Inr:
  assumes "createQuestion sv sid p ans ci ap aid c = Inr (n, c')"
  shows "\<exists>r. c' = c\<lparr>tbl_questions := tbl_questions c @ [r], next_question_id := Suc (next_question_id c)\<rparr>
          \<and> n = next_question_id c \<and> q_id r = next_question_id c \<and> q_story_id r = sid \<and> q_author_id r = aid
          \<and> q_prompt r = p \<and> [answer_a r, answer_b r, answer_c r, answer_d r] = take 4 ans
          \<and> correct_index r = ci \<and> audio_path r = ap \<and> q_created_at r = now sv \<and> question_ok sv c r"
  using assms
  by (auto simp: createQuestion_def Let_def split: list.splits if_splits)

lemma createQuestion_accept:
  assumes "length ans = 4" and "\<forall>c r. question_ok sv c r"
  shows "\<exists>n c'. createQuestion sv sid p ans ci ap aid c = Inr (n, c')"
proof -
  from assms(1) obtain a b x e where "ans = [a, b, x, e]" using length4 by blast
  with assms(2) show ?thesis by (simp add: createQuestion_def Let_def)
qed

lemma insertQuestions_Inr:
  "insertQuestions sv sid aid qs c = Inr c' \<Longrightarrow>
     \<exists>rows. c' = c\<lparr>tbl_questions := tbl_questions c @ rows,
                   next_question_id := next_question_id c + length qs\<rparr>
       \<and> list_all2 (\<lambda>r q. q_story_id r = sid \<and> q_author_id r = aid \<and> q_prompt r = prompt q
                        \<and> [answer_a r, answer_b r, answer_c r, answer_d r] = take 4 (answers q)
                        \<and> correct_index r = correctIndex q \<and> audio_path r = audioPathOf q) rows qs"
proof (induction qs arbitrary: c)
  case Nil
  then show ?case by simp
next
  case (Cons q qs)
  from Cons.prems obtain n c1 where
    cq: "createQuestion sv sid (prompt q) (answers q) (correctIndex q) (audioPathOf q) aid c = Inr (n, c1)"
    and rest: "insertQuestions sv sid aid qs c1 = Inr c'"
    by (auto split: sum.splits)
  from createQuestion_Inr[OF cq] obtain r where
    c1: "c1 = c\<lparr>tbl_questions := tbl_questions c @ [r], next_question_id := Suc (next_question_id c)\<rparr>"
    and r: "q_story_id r = sid" "q_author_id r = aid" "q_prompt r = prompt q"
      "[answer_a r, answer_b r, answer_c r, answer_d r] = take 4 (answers q)"
      "correct_index r = correctIndex q" "audio_path r = audioPathOf q"
    by blast
  from Cons.IH[OF rest] obtain rows where
    c': "c' = c1\<lparr>tbl_questions := tbl_questions c1 @ rows, next_question_id := next_question_id c1 + length qs\<rparr>"
    and rows: "list_all2 (\<lambda>r q. q_story_id r = sid \<and> q_author_id r = aid \<and> q_prompt r = prompt q
                        \<and> [answer_a r, answer_b r, answer_c r, answer_d r] = take 4 (answers q)
                        \<and> correct_index r = correctIndex q \<and> audio_path r = audioPathOf q) rows qs"
    by blast
  have "c' = c\<lparr>tbl_questions := tbl_questions c @ (r # rows),
               next_question_id := next_question_id c + length (q # qs)\<rparr>"
    using c1 c' by simp
  moreover have "list_all2 (\<lambda>r q. q_story_id r = sid \<and> q_author_id r = aid \<and> q_prompt r = prompt q
                        \<and> [answer_a r, answer_b r, answer_c r, answer_d r] = take 4 (answers q)
                        \<and> correct_index r = correctIndex q \<and> audio_path r = audioPathOf q) (r # rows) (q # qs)"
    using r rows by simp
  ultimately show ?case by blast
qed

lemma insertQuestions_accept:
  assumes "\<forall>q \<in> set qs. length (answers q) = 4" and "\<forall>c r. question_ok sv c r"
  shows "\<exists>c'. insertQuestions sv sid aid qs c = Inr c'"
  using assms(1)
proof (induction qs arbitrary: c)
  case Nil
  then show ?case by simp
next
  case (Cons q qs)
  then have "length (answers q) = 4" by simp
  from createQuestion_accept[OF this assms(2)] obtain n c1 where
    "createQuestion sv sid (prompt q) (answers q) (correctIndex q) (audioPathOf q) aid c = Inr (n, c1)"
    by blast
  moreover from Cons obtain c' where "insertQuestions sv sid aid qs c1 = Inr c'"
    by auto
  ultimately show ?case by simp
qed

lemma insertQuestions_fails:
  assumes "insertQuestions sv sid aid qs1 c = Inr c1"
    and "createQuestion sv sid (prompt q) (answers q) (correctIndex q) (audioPathOf q) aid c1 = Inl e"
  shows "insertQuestions sv sid aid (qs1 @ q # qs2) c = Inl e"
  using assms
  by (induction qs1 arbitrary: c) (auto split: sum.splits)

lemma saveStory_Inr:
  assumes "saveStory sv vals aid d = Inr (sid, d')"
  shows "\<exists>srow qrows.
           d' = d\<lparr>tbl_stories := tbl_stories d @ [srow], tbl_questions := tbl_questions d @ qrows,
                  next_story_id := Suc (next_story_id d),
                  next_question_id := next_question_id d + length (questions vals)\<rparr>
         \<and> sid = next_story_id d
         \<and> srow = \<lparr>st_id = next_story_id d, st_title = title vals, st_level = level vals,
                    st_summary = summary vals, st_body = body vals, st_author_id = aid,
                    st_created_at = now sv\<rparr>
         \<and> list_all2 (\<lambda>r q. q_story_id r = sid \<and> q_author_id r = aid \<and> q_prompt r = prompt q
                        \<and> [answer_a r, answer_b r, answer_c r, answer_d r] = take 4 (answers q)
                        \<and> correct_index r = correctIndex q \<and> audio_path r = audioPathOf q) qrows (questions vals)"
proof -
  from assms obtain c1 c2 where
    cs: "createStory sv (title vals) (level vals) (summary vals) (body vals) aid d = Inr (sid, c1)"
    and iq: "insertQuestions sv sid aid (questions vals) c1 = Inr c2"
    and d': "d' = c2"
    by (auto simp: saveStory_def split: sum.splits if_splits)
  let ?srow = "\<lparr>st_id = next_story_id d, st_title = title vals, st_level = level vals,
                    st_summary = summary vals, st_body = body vals, st_author_id = aid,
                    st_created_at = now sv\<rparr>"
  from cs have c1: "c1 = d\<lparr>tbl_stories := tbl_stories d @ [?srow], next_story_id := Suc (next_story_id d)\<rparr>"
    and sid: "sid = next_story_id d"
    by (auto simp: createStory_def Let_def split: if_splits)
  from insertQuestions_Inr[OF iq] obtain rows where
    c2: "c2 = c1\<lparr>tbl_questions := tbl_questions c1 @ rows,
                   next_question_id := next_question_id c1 + length (questions vals)\<rparr>"
    and rows: "list_all2 (\<lambda>r q. q_story_id r = sid \<and> q_author_id r = aid \<and> q_prompt r = prompt q
                        \<and> [answer_a r, answer_b r, answer_c r, answer_d r] = take 4 (answers q)
                        \<and> correct_index r = correctIndex q \<and> audio_path r = audioPathOf q) rows (questions vals)"
    by blast
  have "d' = d\<lparr>tbl_stories := tbl_stories d @ [?srow], tbl_questions := tbl_questions d @ rows,
                  next_story_id := Suc (next_story_id d),
                  next_question_id := next_question_id d + length (questions vals)\<rparr>"
    using d' c2 c1 by simp
  with sid rows show ?thesis by blast
qed

lemma saveStory_accept:
  assumes "\<forall>q \<in> set (questions vals). length (answers q) = 4"
    and "\<forall>c r. story_ok sv c r" "\<forall>c r. question_ok sv c r" "\<forall>c. commit_ok sv c"
  shows "\<exists>sid d'. saveStory sv vals aid d = Inr (sid, d')"
proof -
  obtain sid c1 where cs: "createStory sv (title vals) (level vals) (summary vals) (body vals) aid d = Inr (sid, c1)"
    using assms(2) by (simp add: createStory_def Let_def)
  obtain c2 where "insertQuestions sv sid aid (questions vals) c1 = Inr c2"
    using insertQuestions_accept[OF assms(1,3)] by blast
  with cs assms(4) show ?thesis by (simp add: saveStory_def)
qed

subsection \<open>The cases of the story handler\<close>

lemma db_cleanupFiles [simp]: "db (cleanupFiles fs w) = db w"
  by (simp add: cleanupFiles_def)

lemma disk_cleanupFiles: "f \<in> set fs \<Longrightarrow> path f \<notin> set (disk (cleanupFiles fs w))"
  by (simp add: cleanupFiles_def)

lemma statusOf_renderForm [simp]: "statusOf (renderForm st m v) = st"
  by (simp add: statusOf_def renderForm_def)

lemma postStories_upload_failed:
  "upload_error req = Some m \<Longrightarrow>
     postStories sv u req w = (renderForm 400 m initialValues, cleanupFiles (req_files req) w)"
  by (simp add: postStories_def)

lemma postStories_required:
  "upload_error req = None \<Longrightarrow>
   title (readValues req) = [] \<or> summary (readValues req) = [] \<or> body (readValues req) = [] \<Longrightarrow>
     postStories sv u req w = (renderForm 400 msgRequired (readValues req), cleanupFiles (req_files req) w)"
  by (simp add: postStories_def Let_def)

lemma postStories_level:
  "upload_error req = None \<Longrightarrow>
   title (readValues req) \<noteq> [] \<Longrightarrow> summary (readValues req) \<noteq> [] \<Longrightarrow> body (readValues req) \<noteq> [] \<Longrightarrow>
   level (readValues req) \<notin> set STORY_LEVELS \<Longrightarrow>
     postStories sv u req w = (renderForm 400 msgLevel (readValues req), cleanupFiles (req_files req) w)"
  by (simp add: postStories_def Let_def)

lemma postStories_questions:
  "upload_error req = None \<Longrightarrow>
   title (readValues req) \<noteq> [] \<Longrightarrow> summary (readValues req) \<noteq> [] \<Longrightarrow> body (readValues req) \<noteq> [] \<Longrightarrow>
   level (readValues req) \<in> set STORY_LEVELS \<Longrightarrow>
   validateQuestions (questions (readValues req)) = Some m \<Longrightarrow>
     postStories sv u req w = (renderForm 400 m (readValues req), cleanupFiles (req_files req) w)"
  by (simp add: postStories_def Let_def)

lemma postStories_valid:
  "upload_error req = None \<Longrightarrow>
   title (readValues req) \<noteq> [] \<Longrightarrow> summary (readValues req) \<noteq> [] \<Longrightarrow> body (readValues req) \<noteq> [] \<Longrightarrow>
   level (readValues req) \<in> set STORY_LEVELS \<Longrightarrow>
   validateQuestions (questions (readValues req)) = None \<Longrightarrow>
     postStories sv u req w =
       (case saveStory sv (readValues req) (su_id u) (db w) of
          Inr (storyId, d') \<Rightarrow> (Redirect (''/story/'' @ showNat storyId), w\<lparr>db := d'\<rparr>)
        | Inl _ \<Rightarrow> (renderForm 500 msgUnexpected (readValues req), cleanupFiles (req_files req) w))"
  by (simp add: postStories_def Let_def)

text \<open>Every way the handler ends short of a committed transaction leaves the database alone.\<close>

lemma postStories_cases:
  "(db (snd (postStories sv u req w)) = db w
      \<and> (statusOf (fst (postStories sv u req w)) = 400 \<or> statusOf (fst (postStories sv u req w)) = 500))
   \<or> (\<exists>sid d'. upload_error req = None \<and> title (readValues req) \<noteq> [] \<and> summary (readValues req) \<noteq> []
        \<and> body (readValues req) \<noteq> [] \<and> level (readValues req) \<in> set STORY_LEVELS
        \<and> validateQuestions (questions (readValues req)) = None
        \<and> saveStory sv (readValues req) (su_id u) (db w) = Inr (sid, d')
        \<and> postStories sv u req w = (Redirect (''/story/'' @ showNat sid), w\<lparr>db := d'\<rparr>))"
proof (cases "upload_error req")
  case (Some m)
  then have "postStories sv u req w = (renderForm 400 m initialValues, cleanupFiles (req_files req) w)"
    by (rule postStories_upload_failed)
  then show ?thesis by simp
next
  case None
  show ?thesis
  proof (cases "title (readValues req) = [] \<or> summary (readValues req) = [] \<or> body (readValues req) = []")
    case True
    with None have "postStories sv u req w = (renderForm 400 msgRequired (readValues req), cleanupFiles (req_files req) w)"
      by (rule postStories_required)
    then show ?thesis by simp
  next
    case False
    then have t: "title (readValues req) \<noteq> []" and s: "summary (readValues req) \<noteq> []"
      and b: "body (readValues req) \<noteq> []" by simp_all
    show ?thesis
    proof (cases "level (readValues req) \<in> set STORY_LEVELS")
      case False
      with None t s b
      have "postStories sv u req w = (renderForm 400 msgLevel (readValues req), cleanupFiles (req_files req) w)"
        by (rule postStories_level)
      then show ?thesis by simp
    next
      case lev: True
      show ?thesis
      proof (cases "validateQuestions (questions (readValues req))")
        case (Some m)
        with None t s b lev
        have "postStories sv u req w = (renderForm 400 m (readValues req), cleanupFiles (req_files req) w)"
          by (rule postStories_questions)
        then show ?thesis by simp
      next
        case v: None
        note pv = postStories_valid[OF None t s b lev v, of sv u w]
        show ?thesis
        proof (cases "saveStory sv (readValues req) (su_id u) (db w)")
          case (Inl e)
          with pv have "postStories sv u req w = (renderForm 500 msgUnexpected (readValues req), cleanupFiles (req_files req) w)"
            by simp
          then show ?thesis by simp
        next
          case (Inr p)
          obtain sid d' where p: "p = (sid, d')" by (cases p)
          with Inr pv have e: "postStories sv u req w = (Redirect (''/story/'' @ showNat sid), w\<lparr>db := d'\<rparr>)"
            by simp
          have "\<exists>sid d'. upload_error req = None \<and> title (readValues req) \<noteq> [] \<and> summary (readValues req) \<noteq> []
              \<and> body (readValues req) \<noteq> [] \<and> level (readValues req) \<in> set STORY_LEVELS
              \<and> validateQuestions (questions (readValues req)) = None
              \<and> saveStory sv (readValues req) (su_id u) (db w) = Inr (sid, d')
              \<and> postStories sv u req w = (Redirect (''/story/'' @ showNat sid), w\<lparr>db := d'\<rparr>)"
            using None t s b lev v Inr p e by (intro exI[of _ sid] exI[of _ d']) simp
          then show ?thesis by (rule disjI2)
        qed
      qed
    qed
  qed
qed

subsection \<open>Atomicity of a submission\<close>

lemma postStories_invalid:
  assumes "upload_error req = None"
    and "title (readValues req) = [] \<or> summary (readValues req) = [] \<or> body (readValues req) = []
         \<or> level (readValues req) \<notin> set STORY_LEVELS
         \<or> validateQuestions (questions (readValues req)) \<noteq> None"
  shows "postStories sv u req w =
           (renderForm 400
              (if title (readValues req) = [] \<or> summary (readValues req) = [] \<or> body (readValues req) = []
               then msgRequired
               else if level (readValues req) \<notin> set STORY_LEVELS then msgLevel
               else the (validateQuestions (questions (readValues req))))
              (readValues req),
            cleanupFiles (req_files req) w)"
proof (cases "title (readValues req) = [] \<or> summary (readValues req) = [] \<or> body (readValues req) = []")
  case True
  with assms(1) show ?thesis by (simp add: postStories_required)
next
  case False
  then have t: "title (readValues req) \<noteq> []" and s: "summary (readValues req) \<noteq> []"
    and b: "body (readValues req) \<noteq> []" by simp_all
  show ?thesis
  proof (cases "level (readValues req) \<in> set STORY_LEVELS")
    case False
    with assms(1) t s b show ?thesis by (simp add: postStories_level)
  next
    case True
    with assms(2) t s b obtain m where m: "validateQuestions (questions (readValues req)) = Some m"
      by auto
    from postStories_questions[OF assms(1) t s b True m] t s b True m show ?thesis by simp
  qed
qed

lemma validateQuestions_Some_iff:
  "validateQuestions qs \<noteq> None \<longleftrightarrow>
     list_ex (\<lambda>q. prompt q = [] \<or> list_ex (\<lambda>a. a = []) (answers q)
                  \<or> isNaN (correctIndex q) \<or> numLess (correctIndex q) 0 \<or> numGreater (correctIndex q) 3) qs"
  by (induction qs) auto

lemma saveStory_steps:
  assumes "saveStory sv vals aid d = Inr (sid, d')"
  shows "\<exists>c1. createStory sv (title vals) (level vals) (summary vals) (body vals) aid d = Inr (sid, c1)
           \<and> insertQuestions sv sid aid (questions vals) c1 = Inr d' \<and> commit_ok sv d'"
  using assms by (auto simp: saveStory_def split: sum.splits if_splits)

lemma insertQuestions_steps:
  assumes "insertQuestions sv sid aid (qs1 @ q # qs2) c = Inr c'"
  shows "\<exists>c1 n c2. insertQuestions sv sid aid qs1 c = Inr c1
           \<and> createQuestion sv sid (prompt q) (answers q) (correctIndex q) (audioPathOf q) aid c1 = Inr (n, c2)"
  using assms
proof (induction qs1 arbitrary: c)
  case Nil
  then show ?case by (auto split: sum.splits)
next
  case (Cons a qs1)
  from Cons.prems obtain n c0 where
    a: "createQuestion sv sid (prompt a) (answers a) (correctIndex a) (audioPathOf a) aid c = Inr (n, c0)"
    and r: "insertQuestions sv sid aid (qs1 @ q # qs2) c0 = Inr c'"
    by (auto split: sum.splits)
  from Cons.IH[OF r] a show ?case by simp
qed

text \<open>
  Claim C1. A submission that fails validation (a required story field empty, a level
  outside the six, or a question that reached validation with an empty prompt, an empty
  answer or a correct index that is NaN or outside 0..3) is answered with status 400 and
  leaves the database as it was; the answer is the same whatever the database server
  would do, since no transaction is begun. When the transaction fails the database is
  again as it was; the database changes only with a redirect to the new story. A
  transaction that goes through has had its story insert, every question insert and its
  commit accepted.
\<close>

theorem story_submission_atomic:
  "(upload_error req = None
      \<and> (title (readValues req) = [] \<or> summary (readValues req) = [] \<or> body (readValues req) = []
          \<or> level (readValues req) \<notin> set STORY_LEVELS
          \<or> list_ex (\<lambda>q. prompt q = [] \<or> list_ex (\<lambda>a. a = []) (answers q)
                          \<or> isNaN (correctIndex q) \<or> numLess (correctIndex q) 0 \<or> numGreater (correctIndex q) 3)
               (parseStoryQuestions (req_body req) (req_files req)))
     \<longrightarrow> statusOf (fst (postStories sv u req w)) = 400
        \<and> db (snd (postStories sv u req w)) = db w
        \<and> postStories sv' u req w = postStories sv u req w)
   \<and> ((\<exists>e. saveStory sv (readValues req) (su_id u) (db w) = Inl e)
     \<longrightarrow> db (snd (postStories sv u req w)) = db w
        \<and> (statusOf (fst (postStories sv u req w)) = 400 \<or> statusOf (fst (postStories sv u req w)) = 500))
   \<and> (db (snd (postStories sv u req w)) \<noteq> db w
     \<longrightarrow> (\<exists>sid d'. saveStory sv (readValues req) (su_id u) (db w) = Inr (sid, d')
          \<and> postStories sv u req w = (Redirect (''/story/'' @ showNat sid), w\<lparr>db := d'\<rparr>)))
   \<and> (\<forall>sid d'. saveStory sv vals aid d = Inr (sid, d')
     \<longrightarrow> (\<exists>c1. createStory sv (title vals) (level vals) (summary vals) (body vals) aid d = Inr (sid, c1)
          \<and> insertQuestions sv sid aid (questions vals) c1 = Inr d' \<and> commit_ok sv d'))
   \<and> (\<forall>sid qs1 q qs2 c c'. insertQuestions sv sid aid (qs1 @ q # qs2) c = Inr c'
     \<longrightarrow> (\<exists>c1 n c2. insertQuestions sv sid aid qs1 c = Inr c1
           \<and> createQuestion sv sid (prompt q) (answers q) (correctIndex q) (audioPathOf q) aid c1 = Inr (n, c2)))"
proof (intro conjI impI allI)
  assume a: "upload_error req = None
      \<and> (title (readValues req) = [] \<or> summary (readValues req) = [] \<or> body (readValues req) = []
          \<or> level (readValues req) \<notin> set STORY_LEVELS
          \<or> list_ex (\<lambda>q. prompt q = [] \<or> list_ex (\<lambda>a. a = []) (answers q)
                          \<or> isNaN (correctIndex q) \<or> numLess (correctIndex q) 0 \<or> numGreater (correctIndex q) 3)
               (parseStoryQuestions (req_body req) (req_files req)))"
  then have u: "upload_error req = None" by simp
  have q: "questions (readValues req) = parseStoryQuestions (req_body req) (req_files req)"
    by (simp add: readValues_def)
  from a have inv: "title (readValues req) = [] \<or> summary (readValues req) = [] \<or> body (readValues req) = []
         \<or> level (readValues req) \<notin> set STORY_LEVELS
         \<or> validateQuestions (questions (readValues req)) \<noteq> None"
    unfolding validateQuestions_Some_iff q by blast
  note e = postStories_invalid[OF u inv]
  show "statusOf (fst (postStories sv u req w)) = 400" by (simp add: e)
  show "db (snd (postStories sv u req w)) = db w" by (simp add: e)
  show "postStories sv' u req w = postStories sv u req w" by (simp only: e[of sv] e[of sv'])
next
  assume "\<exists>e. saveStory sv (readValues req) (su_id u) (db w) = Inl e"
  then have ninr: "\<And>sid d'. saveStory sv (readValues req) (su_id u) (db w) \<noteq> Inr (sid, d')" by auto
  with postStories_cases[of sv u req w]
  have c: "db (snd (postStories sv u req w)) = db w
      \<and> (statusOf (fst (postStories sv u req w)) = 400 \<or> statusOf (fst (postStories sv u req w)) = 500)"
    by blast
  from c show "db (snd (postStories sv u req w)) = db w" by simp
  from c show "statusOf (fst (postStories sv u req w)) = 400 \<or> statusOf (fst (postStories sv u req w)) = 500" by simp
next
  assume "db (snd (postStories sv u req w)) \<noteq> db w"
  with postStories_cases[of sv u req w]
  show "\<exists>sid d'. saveStory sv (readValues req) (su_id u) (db w) = Inr (sid, d')
          \<and> postStories sv u req w = (Redirect (''/story/'' @ showNat sid), w\<lparr>db := d'\<rparr>)"
    by blast
next
  fix sid d' assume "saveStory sv vals aid d = Inr (sid, d')"
  then show "\<exists>c1. createStory sv (title vals) (level vals) (summary vals) (body vals) aid d = Inr (sid, c1)
          \<and> insertQuestions sv sid aid (questions vals) c1 = Inr d' \<and> commit_ok sv d'"
    by (rule saveStory_steps)
next
  fix sid qs1 q qs2 c c' assume "insertQuestions sv sid aid (qs1 @ q # qs2) c = Inr c'"
  then show "\<exists>c1 n c2. insertQuestions sv sid aid qs1 c = Inr c1
           \<and> createQuestion sv sid (prompt q) (answers q) (correctIndex q) (audioPathOf q) aid c1 = Inr (n, c2)"
    by (rule insertQuestions_steps)
qed

theorem story_submission_atomic_witness:
  "upload_error badIndexRequest = None
   \<and> list_ex (\<lambda>q. prompt q = [] \<or> list_ex (\<lambda>a. a = []) (answers q)
                   \<or> isNaN (correctIndex q) \<or> numLess (correctIndex q) 0 \<or> numGreater (correctIndex q) 3)
        (parseStoryQuestions (req_body badIndexRequest) (req_files badIndexRequest))
   \<and> statusOf (fst (postStories exampleDbms adminUser badIndexRequest exampleWorld)) = 400
   \<and> db (snd (postStories exampleDbms adminUser badIndexRequest exampleWorld)) = db exampleWorld
   \<and> saveStory failingCommit (readValues validRequest) (su_id adminUser) (db exampleWorld) = Inl DbError
   \<and> db (snd (postStories failingCommit adminUser validRequest exampleWorld)) = db exampleWorld
   \<and> db (snd (postStories exampleDbms adminUser validRequest exampleWorld)) \<noteq> db exampleWorld
   \<and> fst (postStories exampleDbms adminUser validRequest exampleWorld) = Redirect ''/story/1''"
proof -
  have u: "upload_error badIndexRequest = None" by code_simp
  have b: "list_ex (\<lambda>q. prompt q = [] \<or> list_ex (\<lambda>a. a = []) (answers q)
                   \<or> isNaN (correctIndex q) \<or> numLess (correctIndex q) 0 \<or> numGreater (correctIndex q) 3)
        (parseStoryQuestions (req_body badIndexRequest) (req_files badIndexRequest))"
    by code_simp
  have f: "saveStory failingCommit (readValues validRequest) (su_id adminUser) (db exampleWorld) = Inl DbError"
    by code_simp
  have c: "db (snd (postStories exampleDbms adminUser validRequest exampleWorld)) \<noteq> db exampleWorld"
    by code_simp
  have r: "fst (postStories exampleDbms adminUser validRequest exampleWorld) = Redirect ''/story/1''"
    by code_simp
  note t1 = story_submission_atomic[where req = badIndexRequest and sv = exampleDbms and u = adminUser
      and w = exampleWorld, THEN conjunct1, rule_format]
  note t2 = story_submission_atomic[where req = validRequest and sv = failingCommit and u = adminUser
      and w = exampleWorld, THEN conjunct2, THEN conjunct1, rule_format]
  have "statusOf (fst (postStories exampleDbms adminUser badIndexRequest exampleWorld)) = 400
      \<and> db (snd (postStories exampleDbms adminUser badIndexRequest exampleWorld)) = db exampleWorld"
    using t1[of exampleDbms] u b by blast
  moreover have "db (snd (postStories failingCommit adminUser validRequest exampleWorld)) = db exampleWorld"
    using t2 f by blast
  ultimately show ?thesis using u b f c r by blast
qed

subsection \<open>A submission that is saved\<close>

text \<open>
  Claim C2. For a valid submission with N questions that reached validation and passed
  it, a transaction that goes through appends exactly one story row, with the generated
  id and the signed-in user as author, and exactly N question rows in the order of the
  questions, each with the new story's id and the same author; the response redirects to
  \<open>/story/<id>\<close>. A server that accepts every insert and the commit lets the
  transaction go through.
\<close>

theorem story_submission_persists:
  assumes "upload_error req = None"
    and "title (readValues req) \<noteq> []" "summary (readValues req) \<noteq> []" "body (readValues req) \<noteq> []"
    and "level (readValues req) \<in> set STORY_LEVELS"
    and "validateQuestions (parseStoryQuestions (req_body req) (req_files req)) = None"
  shows "(\<forall>sid d'. saveStory sv (readValues req) (su_id u) (db w) = Inr (sid, d') \<longrightarrow>
            (\<exists>srow qrows.
               postStories sv u req w = (Redirect (''/story/'' @ showNat (st_id srow)), w\<lparr>db := d'\<rparr>)
             \<and> d' = (db w)\<lparr>tbl_stories := tbl_stories (db w) @ [srow],
                            tbl_questions := tbl_questions (db w) @ qrows,
                            next_story_id := Suc (next_story_id (db w)),
                            next_question_id := next_question_id (db w) + length qrows\<rparr>
             \<and> srow = \<lparr>st_id = next_story_id (db w), st_title = title (readValues req),
                        st_level = level (readValues req), st_summary = summary (readValues req),
                        st_body = body (readValues req), st_author_id = su_id u,
                        st_created_at = now sv\<rparr>
             \<and> length qrows = length (parseStoryQuestions (req_body req) (req_files req))
             \<and> list_all2 (\<lambda>r q. q_story_id r = st_id srow \<and> q_author_id r = su_id u
                              \<and> q_prompt r = prompt q
                              \<and> [answer_a r, answer_b r, answer_c r, answer_d r] = answers q
                              \<and> correct_index r = correctIndex q \<and> audio_path r = audioPathOf q)
                  qrows (parseStoryQuestions (req_body req) (req_files req))))
       \<and> ((\<forall>c r. story_ok sv c r) \<and> (\<forall>c r. question_ok sv c r) \<and> (\<forall>c. commit_ok sv c)
            \<longrightarrow> (\<exists>sid d'. saveStory sv (readValues req) (su_id u) (db w) = Inr (sid, d')))"
proof (intro conjI allI impI)
  have q: "questions (readValues req) = parseStoryQuestions (req_body req) (req_files req)"
    by (simp add: readValues_def)
  have v: "validateQuestions (questions (readValues req)) = None"
    using assms(6) q by simp
  have len: "\<forall>p \<in> set (questions (readValues req)). length (answers p) = 4"
    using q answers_length_parse by simp
  {
    fix sid d' assume s: "saveStory sv (readValues req) (su_id u) (db w) = Inr (sid, d')"
    from saveStory_Inr[OF s] obtain srow qrows where
      d': "d' = (db w)\<lparr>tbl_stories := tbl_stories (db w) @ [srow], tbl_questions := tbl_questions (db w) @ qrows,
                  next_story_id := Suc (next_story_id (db w)),
                  next_question_id := next_question_id (db w) + length (questions (readValues req))\<rparr>"
      and sid: "sid = next_story_id (db w)"
      and srow: "srow = \<lparr>st_id = next_story_id (db w), st_title = title (readValues req),
                        st_level = level (readValues req), st_summary = summary (readValues req),
                        st_body = body (readValues req), st_author_id = su_id u,
                        st_created_at = now sv\<rparr>"
      and rows: "list_all2 (\<lambda>r q. q_story_id r = sid \<and> q_author_id r = su_id u \<and> q_prompt r = prompt q
                        \<and> [answer_a r, answer_b r, answer_c r, answer_d r] = take 4 (answers q)
                        \<and> correct_index r = correctIndex q \<and> audio_path r = audioPathOf q) qrows (questions (readValues req))"
      by blast
    have l: "length qrows = length (parseStoryQuestions (req_body req) (req_files req))"
      using rows q by (simp add: list_all2_lengthD)
    have sid': "sid = st_id srow" using sid srow by simp
    have rows': "list_all2 (\<lambda>r q. q_story_id r = st_id srow \<and> q_author_id r = su_id u
                              \<and> q_prompt r = prompt q
                              \<and> [answer_a r, answer_b r, answer_c r, answer_d r] = answers q
                              \<and> correct_index r = correctIndex q \<and> audio_path r = audioPathOf q)
                  qrows (parseStoryQuestions (req_body req) (req_files req))"
      using rows unfolding q
    proof (rule list.rel_mono_strong)
      fix r p assume pin: "p \<in> set (parseStoryQuestions (req_body req) (req_files req))"
        and h: "q_story_id r = sid \<and> q_author_id r = su_id u \<and> q_prompt r = prompt p
                        \<and> [answer_a r, answer_b r, answer_c r, answer_d r] = take 4 (answers p)
                        \<and> correct_index r = correctIndex p \<and> audio_path r = audioPathOf p"
      from pin have "length (answers p) = 4" by (rule answers_length_parse)
      then have "take 4 (answers p) = answers p" by simp
      with h sid' show "q_story_id r = st_id srow \<and> q_author_id r = su_id u
                              \<and> q_prompt r = prompt p
                              \<and> [answer_a r, answer_b r, answer_c r, answer_d r] = answers p
                              \<and> correct_index r = correctIndex p \<and> audio_path r = audioPathOf p"
        by simp
    qed
    have p: "postStories sv u req w = (Redirect (''/story/'' @ showNat (st_id srow)), w\<lparr>db := d'\<rparr>)"
      using postStories_valid[OF assms(1-5) v, of sv u w] s sid' by simp
    have d'': "d' = (db w)\<lparr>tbl_stories := tbl_stories (db w) @ [srow],
                            tbl_questions := tbl_questions (db w) @ qrows,
                            next_story_id := Suc (next_story_id (db w)),
                            next_question_id := next_question_id (db w) + length qrows\<rparr>"
      using d' l q by simp
    show "\<exists>srow qrows.
               postStories sv u req w = (Redirect (''/story/'' @ showNat (st_id srow)), w\<lparr>db := d'\<rparr>)
             \<and> d' = (db w)\<lparr>tbl_stories := tbl_stories (db w) @ [srow],
                            tbl_questions := tbl_questions (db w) @ qrows,
                            next_story_id := Suc (next_story_id (db w)),
                            next_question_id := next_question_id (db w) + length qrows\<rparr>
             \<and> srow = \<lparr>st_id = next_story_id (db w), st_title = title (readValues req),
                        st_level = level (readValues req), st_summary = summary (readValues req),
                        st_body = body (readValues req), st_author_id = su_id u,
                        st_created_at = now sv\<rparr>
             \<and> length qrows = length (parseStoryQuestions (req_body req) (req_files req))
             \<and> list_all2 (\<lambda>r q. q_story_id r = st_id srow \<and> q_author_id r = su_id u
                              \<and> q_prompt r = prompt q
                              \<and> [answer_a r, answer_b r, answer_c r, answer_d r] = answers q
                              \<and> correct_index r = correctIndex q \<and> audio_path r = audioPathOf q)
                  qrows (parseStoryQuestions (req_body req) (req_files req))"
      using p d'' srow l rows' by (intro exI[of _ srow] exI[of _ qrows] conjI)
  }
  {
    assume a: "(\<forall>c r. story_ok sv c r) \<and> (\<forall>c r. question_ok sv c r) \<and> (\<forall>c. commit_ok sv c)"
    then have a1: "\<forall>c r. story_ok sv c r" and a2: "\<forall>c r. question_ok sv c r" and a3: "\<forall>c. commit_ok sv c"
      by simp_all
    show "\<exists>sid d'. saveStory sv (readValues req) (su_id u) (db w) = Inr (sid, d')"
      by (rule saveStory_accept[OF len a1 a2 a3])
  }
qed

theorem story_submission_persists_witness:
  "upload_error validRequest = None
   \<and> title (readValues validRequest) = ''Der Mond'' \<and> level (readValues validRequest) = ''A1''
   \<and> validateQuestions (parseStoryQuestions (req_body validRequest) (req_files validRequest)) = None
   \<and> length (parseStoryQuestions (req_body validRequest) (req_files validRequest)) = 1
   \<and> fst (postStories exampleDbms adminUser validRequest exampleWorld) = Redirect ''/story/1''
   \<and> length (tbl_stories (db (snd (postStories exampleDbms adminUser validRequest exampleWorld)))) = 1
   \<and> length (tbl_questions (db (snd (postStories exampleDbms adminUser validRequest exampleWorld)))) = 1
   \<and> (\<exists>sid d'. saveStory acceptingDbms (readValues validRequest) (su_id adminUser) (db exampleWorld) = Inr (sid, d'))"
proof -
  have h1: "upload_error validRequest = None" by code_simp
  have h2: "title (readValues validRequest) \<noteq> []" by code_simp
  have h3: "summary (readValues validRequest) \<noteq> []" by code_simp
  have h4: "body (readValues validRequest) \<noteq> []" by code_simp
  have h5: "level (readValues validRequest) \<in> set STORY_LEVELS" by code_simp
  have h6: "validateQuestions (parseStoryQuestions (req_body validRequest) (req_files validRequest)) = None"
    by code_simp
  have t: "title (readValues validRequest) = ''Der Mond''" by code_simp
  have l: "level (readValues validRequest) = ''A1''" by code_simp
  have n: "length (parseStoryQuestions (req_body validRequest) (req_files validRequest)) = 1" by code_simp
  have e: "tbl_stories (db exampleWorld) = [] \<and> tbl_questions (db exampleWorld) = []
           \<and> showNat (next_story_id (db exampleWorld)) = ''1''" by code_simp
  have "case saveStory exampleDbms (readValues validRequest) (su_id adminUser) (db exampleWorld) of
          Inl _ \<Rightarrow> False | Inr _ \<Rightarrow> True" by code_simp
  then obtain sid d' where s: "saveStory exampleDbms (readValues validRequest) (su_id adminUser) (db exampleWorld) = Inr (sid, d')"
    by (auto split: sum.splits)
  note th = story_submission_persists[OF h1 h2 h3 h4 h5 h6]
  from th[of exampleDbms adminUser exampleWorld, THEN conjunct1, rule_format, OF s]
  obtain srow qrows where
    p: "postStories exampleDbms adminUser validRequest exampleWorld
          = (Redirect (''/story/'' @ showNat (st_id srow)), exampleWorld\<lparr>db := d'\<rparr>)"
    and d': "d' = (db exampleWorld)\<lparr>tbl_stories := tbl_stories (db exampleWorld) @ [srow],
                            tbl_questions := tbl_questions (db exampleWorld) @ qrows,
                            next_story_id := Suc (next_story_id (db exampleWorld)),
                            next_question_id := next_question_id (db exampleWorld) + length qrows\<rparr>"
    and srow: "st_id srow = next_story_id (db exampleWorld)"
    and len: "length qrows = length (parseStoryQuestions (req_body validRequest) (req_files validRequest))"
    by auto
  have a: "(\<forall>c r. story_ok acceptingDbms c r) \<and> (\<forall>c r. question_ok acceptingDbms c r) \<and> (\<forall>c. commit_ok acceptingDbms c)"
    by (simp add: acceptingDbms_def)
  from th[of acceptingDbms adminUser exampleWorld, THEN conjunct2, rule_format, OF a]
  have x: "\<exists>sid d'. saveStory acceptingDbms (readValues validRequest) (su_id adminUser) (db exampleWorld) = Inr (sid, d')" .
  show ?thesis
    using h1 t l h6 n x by (simp add: p d' srow len e)
qed

lemma statusOf_renderQuestionForm [simp]: "statusOf (renderQuestionForm d st m v) = st"
  by (simp add: statusOf_def renderQuestionForm_def)

lemma db_cleanupUploadedFile [simp]: "db (cleanupUploadedFile f w) = db w"
  by (cases f) (simp_all add: cleanupUploadedFile_def)

lemma index_in_range:
  "\<not> (isNaN ci \<or> numLess ci 0 \<or> numGreater ci 3) \<Longrightarrow> \<exists>n. ci = Finite n \<and> 0 \<le> n \<and> n \<le> 3"
  by (cases ci) (auto simp: isNaN_def numLess_def numGreater_def)

lemma postQuestions_outcome:
  "db (snd (postQuestions sv u req w)) = db w
   \<and> (isNaN (qv_correctIndex (readQuestionValues (qreq_body req)))
        \<or> numLess (qv_correctIndex (readQuestionValues (qreq_body req))) 0
        \<or> numGreater (qv_correctIndex (readQuestionValues (qreq_body req))) 3
       \<longrightarrow> statusOf (fst (postQuestions sv u req w)) = 400)
   \<or> \<not> (isNaN (qv_correctIndex (readQuestionValues (qreq_body req)))
        \<or> numLess (qv_correctIndex (readQuestionValues (qreq_body req))) 0
        \<or> numGreater (qv_correctIndex (readQuestionValues (qreq_body req))) 3)
     \<and> (\<exists>sid ap qid d'. createQuestion sv sid (qv_prompt (readQuestionValues (qreq_body req)))
                           (qv_answers (readQuestionValues (qreq_body req)))
                           (qv_correctIndex (readQuestionValues (qreq_body req))) ap (su_id u) (db w)
                         = Inr (qid, d')
          \<and> snd (postQuestions sv u req w) = w\<lparr>db := d'\<rparr>)"
proof -
  let ?v = "readQuestionValues (qreq_body req)"
  show ?thesis
  proof (cases "qreq_upload_error req")
    case (Some m)
    then show ?thesis by (simp add: postQuestions_def Let_def)
  next
    case None
    show ?thesis
    proof (cases "isNaN (qv_storyId ?v) \<or> numLessEq (qv_storyId ?v) 0")
      case True
      with None show ?thesis by (simp add: postQuestions_def Let_def)
    next
      case c1: False
      show ?thesis
      proof (cases "qv_prompt ?v = []")
        case True
        with None c1 show ?thesis by (simp add: postQuestions_def Let_def)
      next
        case c2: False
        show ?thesis
        proof (cases "list_ex (\<lambda>a. a = []) (qv_answers ?v)")
          case True
          with None c1 c2 show ?thesis by (simp add: postQuestions_def Let_def)
        next
          case c3: False
          show ?thesis
          proof (cases "isNaN (qv_correctIndex ?v) \<or> numLess (qv_correctIndex ?v) 0 \<or> numGreater (qv_correctIndex ?v) 3")
            case True
            with None c1 c2 c3 show ?thesis by (simp add: postQuestions_def Let_def)
          next
            case c4: False
            from c1 obtain n where n: "qv_storyId ?v = Finite n" by (cases "qv_storyId ?v") (auto simp: isNaN_def)
            show ?thesis
            proof (cases "getStoryById (db w) (nat n)")
              case gn: None
              with None c1 c2 c3 c4 n show ?thesis by (simp add: postQuestions_def Let_def)
            next
              case (Some st)
              show ?thesis
              proof (cases "createQuestion sv (nat n) (qv_prompt ?v) (qv_answers ?v) (qv_correctIndex ?v)
                              (case qreq_file req of None \<Rightarrow> None
                               | Some f \<Rightarrow> Some (''uploads/questions/'' @ filename f))
                              (su_id u) (db w)")
                case (Inl e)
                with None c1 c2 c3 c4 n Some show ?thesis by (simp add: postQuestions_def Let_def)
              next
                case (Inr x)
                obtain qid d' where x: "x = (qid, d')" by (cases x)
                with Inr None c1 c2 c3 c4 n Some
                have "snd (postQuestions sv u req w) = w\<lparr>db := d'\<rparr>"
                  by (simp add: postQuestions_def Let_def)
                with Inr x c4 show ?thesis by blast
              qed
            qed
          qed
        qed
      qed
    qed
  qed
qed

lemma postQuestions_bad_index:
  assumes "isNaN (qv_correctIndex (readQuestionValues (qreq_body req)))
           \<or> numLess (qv_correctIndex (readQuestionValues (qreq_body req))) 0
           \<or> numGreater (qv_correctIndex (readQuestionValues (qreq_body req))) 3"
  shows "statusOf (fst (postQuestions sv u req w)) = 400 \<and> db (snd (postQuestions sv u req w)) = db w"
  using postQuestions_outcome[of sv u req w] assms by blast

lemma postQuestions_rows:
  "\<exists>rows. tbl_questions (db (snd (postQuestions sv u req w))) = tbl_questions (db w) @ rows
      \<and> list_all (\<lambda>r. \<exists>n. correct_index r = Finite n \<and> 0 \<le> n \<and> n \<le> 3) rows"
proof (cases "db (snd (postQuestions sv u req w)) = db w")
  case True
  then show ?thesis by (intro exI[of _ "[]"]) simp
next
  case False
  let ?v = "readQuestionValues (qreq_body req)"
  from False postQuestions_outcome[of sv u req w] obtain sid ap qid d' where
    ok: "\<not> (isNaN (qv_correctIndex ?v) \<or> numLess (qv_correctIndex ?v) 0 \<or> numGreater (qv_correctIndex ?v) 3)"
    and cq: "createQuestion sv sid (qv_prompt ?v) (qv_answers ?v) (qv_correctIndex ?v) ap (su_id u) (db w) = Inr (qid, d')"
    and p: "snd (postQuestions sv u req w) = w\<lparr>db := d'\<rparr>"
    by blast
  from createQuestion_Inr[OF cq] obtain r where
    d': "d' = (db w)\<lparr>tbl_questions := tbl_questions (db w) @ [r], next_question_id := Suc (next_question_id (db w))\<rparr>"
    and ci: "correct_index r = qv_correctIndex ?v" by blast
  from index_in_range[OF ok] ci have "\<exists>n. correct_index r = Finite n \<and> 0 \<le> n \<and> n \<le> 3" by simp
  with p d' show ?thesis by (intro exI[of _ "[r]"]) simp
qed

lemma list_all2_in_set1:
  "list_all2 P xs ys \<Longrightarrow> x \<in> set xs \<Longrightarrow> \<exists>y \<in> set ys. P x y"
  by (induction rule: list_all2_induct) auto

lemma postStories_rows:
  "\<exists>rows. tbl_questions (db (snd (postStories sv u req w))) = tbl_questions (db w) @ rows
      \<and> list_all (\<lambda>r. \<exists>n. correct_index r = Finite n \<and> 0 \<le> n \<and> n \<le> 3) rows"
proof (cases "db (snd (postStories sv u req w)) = db w")
  case True
  then show ?thesis by (intro exI[of _ "[]"]) simp
next
  case False
  with postStories_cases[of sv u req w] obtain sid d' where
    v: "validateQuestions (questions (readValues req)) = None"
    and s: "saveStory sv (readValues req) (su_id u) (db w) = Inr (sid, d')"
    and p: "postStories sv u req w = (Redirect (''/story/'' @ showNat sid), w\<lparr>db := d'\<rparr>)"
    by blast
  from saveStory_Inr[OF s] obtain srow qrows where
    d': "d' = (db w)\<lparr>tbl_stories := tbl_stories (db w) @ [srow], tbl_questions := tbl_questions (db w) @ qrows,
                  next_story_id := Suc (next_story_id (db w)),
                  next_question_id := next_question_id (db w) + length (questions (readValues req))\<rparr>"
    and rows: "list_all2 (\<lambda>r q. q_story_id r = sid \<and> q_author_id r = su_id u \<and> q_prompt r = prompt q
                        \<and> [answer_a r, answer_b r, answer_c r, answer_d r] = take 4 (answers q)
                        \<and> correct_index r = correctIndex q \<and> audio_path r = audioPathOf q) qrows (questions (readValues req))"
    by blast
  have "list_all (\<lambda>r. \<exists>n. correct_index r = Finite n \<and> 0 \<le> n \<and> n \<le> 3) qrows"
    unfolding list_all_iff
  proof
    fix r assume "r \<in> set qrows"
    with list_all2_in_set1[OF rows] obtain q where q: "q \<in> set (questions (readValues req))"
      and c: "correct_index r = correctIndex q"
      by blast
    from v q have "\<not> (isNaN (correctIndex q) \<or> numLess (correctIndex q) 0 \<or> numGreater (correctIndex q) 3)"
      by (simp add: validateQuestions_None list_all_iff)
    from index_in_range[OF this] c show "\<exists>n. correct_index r = Finite n \<and> 0 \<le> n \<and> n \<le> 3" by simp
  qed
  with p d' show ?thesis by (intro exI[of _ qrows]) simp
qed

lemma postStories_bad_index:
  assumes "list_ex (\<lambda>q. isNaN (correctIndex q) \<or> numLess (correctIndex q) 0 \<or> numGreater (correctIndex q) 3)
             (parseStoryQuestions (req_body req) (req_files req))"
  shows "statusOf (fst (postStories sv u req w)) = 400 \<and> db (snd (postStories sv u req w)) = db w"
proof (cases "upload_error req")
  case (Some m)
  then show ?thesis by (simp add: postStories_upload_failed)
next
  case None
  have "validateQuestions (questions (readValues req)) \<noteq> None"
    using validateQuestions_bad_index[OF assms] by (simp add: readValues_def)
  then have "title (readValues req) = [] \<or> summary (readValues req) = [] \<or> body (readValues req) = []
         \<or> level (readValues req) \<notin> set STORY_LEVELS
         \<or> validateQuestions (questions (readValues req)) \<noteq> None" by simp
  from postStories_invalid[OF None this] show ?thesis by simp
qed

subsection \<open>Correct indices out of range\<close>

text \<open>
  Claim C4 says that a submitted question whose correct index is NaN or outside 0..3
  makes the handler reject the submission with status 400. A row that is blank but for
  its correct index is dropped before validation whatever that index is: here the
  candidate has correct index 9, the story is saved and the response is the redirect.
\<close>

theorem blank_row_bad_index_accepted:
  "map correctIndex (map snd (sortedEntries (req_body blankRowRequest) (req_files blankRowRequest))) = [Finite 9]
   \<and> numGreater (Finite 9) 3
   \<and> fst (postStories exampleDbms adminUser blankRowRequest exampleWorld) = Redirect ''/story/1''
   \<and> statusOf (fst (postStories exampleDbms adminUser blankRowRequest exampleWorld)) \<noteq> 400
   \<and> map st_title (tbl_stories (db (snd (postStories exampleDbms adminUser blankRowRequest exampleWorld)))) = [''Der Mond'']"
  by code_simp

text \<open>
  Claim C4, amended. In the story workflow a question that survives the blank-row
  filter and whose correct index is NaN or outside 0..3 makes the handler answer with
  status 400 and leave the database as it was; in the single-question workflow a correct
  index that is NaN or outside 0..3 does the same. In both workflows every question row
  that a request adds carries a correct index between 0 and 3, so an index out of range
  is never persisted, the dropped blank rows included.
\<close>

theorem bad_correct_index_rejected:
  "(list_ex (\<lambda>q. isNaN (correctIndex q) \<or> numLess (correctIndex q) 0 \<or> numGreater (correctIndex q) 3)
       (parseStoryQuestions (req_body req) (req_files req))
     \<longrightarrow> statusOf (fst (postStories sv u req w)) = 400 \<and> db (snd (postStories sv u req w)) = db w)
   \<and> (\<exists>rows. tbl_questions (db (snd (postStories sv u req w))) = tbl_questions (db w) @ rows
         \<and> list_all (\<lambda>r. \<exists>n. correct_index r = Finite n \<and> 0 \<le> n \<and> n \<le> 3) rows)
   \<and> (isNaN (parseIntField (form_correctIndex (qreq_body qreq)))
        \<or> numLess (parseIntField (form_correctIndex (qreq_body qreq))) 0
        \<or> numGreater (parseIntField (form_correctIndex (qreq_body qreq))) 3
     \<longrightarrow> statusOf (fst (postQuestions sv u qreq w)) = 400 \<and> db (snd (postQuestions sv u qreq w)) = db w)
   \<and> (\<exists>rows. tbl_questions (db (snd (postQuestions sv u qreq w))) = tbl_questions (db w) @ rows
         \<and> list_all (\<lambda>r. \<exists>n. correct_index r = Finite n \<and> 0 \<le> n \<and> n \<le> 3) rows)"
proof (intro conjI impI)
  assume "list_ex (\<lambda>q. isNaN (correctIndex q) \<or> numLess (correctIndex q) 0 \<or> numGreater (correctIndex q) 3)
       (parseStoryQuestions (req_body req) (req_files req))"
  then have c: "statusOf (fst (postStories sv u req w)) = 400 \<and> db (snd (postStories sv u req w)) = db w"
    by (rule postStories_bad_index)
  from c show "statusOf (fst (postStories sv u req w)) = 400" by simp
  from c show "db (snd (postStories sv u req w)) = db w" by simp
next
  show "\<exists>rows. tbl_questions (db (snd (postStories sv u req w))) = tbl_questions (db w) @ rows
         \<and> list_all (\<lambda>r. \<exists>n. correct_index r = Finite n \<and> 0 \<le> n \<and> n \<le> 3) rows"
    by (rule postStories_rows)
next
  assume "isNaN (parseIntField (form_correctIndex (qreq_body qreq)))
        \<or> numLess (parseIntField (form_correctIndex (qreq_body qreq))) 0
        \<or> numGreater (parseIntField (form_correctIndex (qreq_body qreq))) 3"
  then have "isNaN (qv_correctIndex (readQuestionValues (qreq_body qreq)))
           \<or> numLess (qv_correctIndex (readQuestionValues (qreq_body qreq))) 0
           \<or> numGreater (qv_correctIndex (readQuestionValues (qreq_body qreq))) 3"
    by (simp add: readQuestionValues_def)
  then have c: "statusOf (fst (postQuestions sv u qreq w)) = 400 \<and> db (snd (postQuestions sv u qreq w)) = db w"
    by (rule postQuestions_bad_index)
  from c show "statusOf (fst (postQuestions sv u qreq w)) = 400" by simp
  from c show "db (snd (postQuestions sv u qreq w)) = db w" by simp
next
  show "\<exists>rows. tbl_questions (db (snd (postQuestions sv u qreq w))) = tbl_questions (db w) @ rows
         \<and> list_all (\<lambda>r. \<exists>n. correct_index r = Finite n \<and> 0 \<le> n \<and> n \<le> 3) rows"
    by (rule postQuestions_rows)
qed

theorem bad_correct_index_rejected_witness:
  "list_ex (\<lambda>q. isNaN (correctIndex q) \<or> numLess (correctIndex q) 0 \<or> numGreater (correctIndex q) 3)
       (parseStoryQuestions (req_body badIndexRequest) (req_files badIndexRequest))
   \<and> statusOf (fst (postStories exampleDbms adminUser badIndexRequest exampleWorld)) = 400
   \<and> db (snd (postStories exampleDbms adminUser badIndexRequest exampleWorld)) = db exampleWorld
   \<and> numGreater (parseIntField (form_correctIndex (qreq_body (adminQuestionRequest ''4'')))) 3
   \<and> statusOf (fst (postQuestions exampleDbms adminUser (adminQuestionRequest ''4'') exampleWorld)) = 400
   \<and> isNaN (parseIntField (form_correctIndex (qreq_body (adminQuestionRequest ''two''))))
   \<and> statusOf (fst (postQuestions exampleDbms adminUser (adminQuestionRequest ''two'') exampleWorld)) = 400
   \<and> db (snd (postQuestions exampleDbms adminUser (adminQuestionRequest ''two'') exampleWorld)) = db exampleWorld"
proof -
  have a: "list_ex (\<lambda>q. isNaN (correctIndex q) \<or> numLess (correctIndex q) 0 \<or> numGreater (correctIndex q) 3)
       (parseStoryQuestions (req_body badIndexRequest) (req_files badIndexRequest))"
    by code_simp
  have b: "numGreater (parseIntField (form_correctIndex (qreq_body (adminQuestionRequest ''4'')))) 3"
    by code_simp
  have c: "isNaN (parseIntField (form_correctIndex (qreq_body (adminQuestionRequest ''two''))))"
    by code_simp
  note t1 = bad_correct_index_rejected[where req = badIndexRequest and sv = exampleDbms and u = adminUser
      and w = exampleWorld, THEN conjunct1, rule_format, OF a]
  note t2 = bad_correct_index_rejected[where qreq = "adminQuestionRequest ''4''" and sv = exampleDbms
      and u = adminUser and w = exampleWorld, THEN conjunct2, THEN conjunct2, THEN conjunct1, rule_format]
  note t3 = bad_correct_index_rejected[where qreq = "adminQuestionRequest ''two''" and sv = exampleDbms
      and u = adminUser and w = exampleWorld, THEN conjunct2, THEN conjunct2, THEN conjunct1, rule_format]
  from t1 t2 t3 a b c show ?thesis by blast
qed

subsection \<open>The form after a failed validation\<close>

text \<open>
  Claim C8 says that after a failed validation the form shows the user's original,
  untrimmed input. The values rendered are the trimmed ones, and the level is in upper
  case: a title sent with spaces around it comes back without them.
\<close>

theorem story_form_shows_trimmed_input:
  "statusOf (fst (postStories exampleDbms adminUser untrimmedRequest exampleWorld)) = 400
   \<and> fieldOr (req_body untrimmedRequest) ''title'' = '' Der Mond ''
   \<and> map_option title (valuesOf (fst (postStories exampleDbms adminUser untrimmedRequest exampleWorld)))
       = Some ''Der Mond''
   \<and> map_option title (valuesOf (fst (postStories exampleDbms adminUser untrimmedRequest exampleWorld)))
       \<noteq> Some (fieldOr (req_body untrimmedRequest) ''title'')
   \<and> fieldOr (req_body untrimmedRequest) ''level'' = ''a1''
   \<and> map_option level (valuesOf (fst (postStories exampleDbms adminUser untrimmedRequest exampleWorld)))
       = Some ''A1''"
  by code_simp

text \<open>
  Claim C8, amended. When the upload went through and validation fails, the form
  \<open>stories/new\<close> is rendered with status 400 and the message of the first check that
  failed (required fields, level, then the questions in order), and with the normalised
  input as its values: title, summary and body trimmed, the level trimmed and in upper
  case, the questions as \<open>parseStoryQuestions\<close> reconstructed them. The database is as it
  was, and the files of the submission are removed from the upload directory.
\<close>

theorem story_form_rerendered:
  assumes "upload_error req = None"
  shows "(title (readValues req) = [] \<or> summary (readValues req) = [] \<or> body (readValues req) = []
           \<longrightarrow> postStories sv u req w
                 = (Render 400 ''stories/new'' (Some msgRequired) (readValues req),
                    cleanupFiles (req_files req) w))
       \<and> (title (readValues req) \<noteq> [] \<and> summary (readValues req) \<noteq> [] \<and> body (readValues req) \<noteq> []
            \<and> level (readValues req) \<notin> set STORY_LEVELS
           \<longrightarrow> postStories sv u req w
                 = (Render 400 ''stories/new'' (Some msgLevel) (readValues req),
                    cleanupFiles (req_files req) w))
       \<and> (\<forall>m. title (readValues req) \<noteq> [] \<and> summary (readValues req) \<noteq> [] \<and> body (readValues req) \<noteq> []
            \<and> level (readValues req) \<in> set STORY_LEVELS
            \<and> validateQuestions (parseStoryQuestions (req_body req) (req_files req)) = Some m
           \<longrightarrow> postStories sv u req w
                 = (Render 400 ''stories/new'' (Some m) (readValues req), cleanupFiles (req_files req) w)
               \<and> (m = msgPromptAnswers \<or> m = msgCorrect))
       \<and> readValues req
           = \<lparr>title = trim (fieldOr (req_body req) ''title''),
              level = toUpperCase (trim (fieldOr (req_body req) ''level'')),
              summary = trim (fieldOr (req_body req) ''summary''),
              body = trim (fieldOr (req_body req) ''body''),
              questions = parseStoryQuestions (req_body req) (req_files req)\<rparr>
       \<and> db (cleanupFiles (req_files req) w) = db w
       \<and> (\<forall>f \<in> set (req_files req). path f \<notin> set (disk (cleanupFiles (req_files req) w)))"
proof (intro conjI impI allI ballI)
  assume "title (readValues req) = [] \<or> summary (readValues req) = [] \<or> body (readValues req) = []"
  with assms show "postStories sv u req w
                 = (Render 400 ''stories/new'' (Some msgRequired) (readValues req),
                    cleanupFiles (req_files req) w)"
    by (simp add: postStories_required renderForm_def)
next
  assume "title (readValues req) \<noteq> [] \<and> summary (readValues req) \<noteq> [] \<and> body (readValues req) \<noteq> []
            \<and> level (readValues req) \<notin> set STORY_LEVELS"
  with assms show "postStories sv u req w
                 = (Render 400 ''stories/new'' (Some msgLevel) (readValues req),
                    cleanupFiles (req_files req) w)"
    by (simp add: postStories_level renderForm_def)
next
  fix m
  assume a: "title (readValues req) \<noteq> [] \<and> summary (readValues req) \<noteq> [] \<and> body (readValues req) \<noteq> []
            \<and> level (readValues req) \<in> set STORY_LEVELS
            \<and> validateQuestions (parseStoryQuestions (req_body req) (req_files req)) = Some m"
  then have v: "validateQuestions (questions (readValues req)) = Some m"
    by (simp add: readValues_def)
  with assms a show "postStories sv u req w
                 = (Render 400 ''stories/new'' (Some m) (readValues req), cleanupFiles (req_files req) w)"
    by (simp add: postStories_questions renderForm_def)
  from v show "m = msgPromptAnswers \<or> m = msgCorrect" by (rule validateQuestions_messages)
next
  show "readValues req
           = \<lparr>title = trim (fieldOr (req_body req) ''title''),
              level = toUpperCase (trim (fieldOr (req_body req) ''level'')),
              summary = trim (fieldOr (req_body req) ''summary''),
              body = trim (fieldOr (req_body req) ''body''),
              questions = parseStoryQuestions (req_body req) (req_files req)\<rparr>"
    by (simp add: readValues_def)
next
  show "db (cleanupFiles (req_files req) w) = db w" by simp
next
  fix f assume "f \<in> set (req_files req)"
  then show "path f \<notin> set (disk (cleanupFiles (req_files req) w))" by (rule disk_cleanupFiles)
qed

theorem story_form_rerendered_witness:
  "upload_error untrimmedRequest = None \<and> summary (readValues untrimmedRequest) = []
   \<and> postStories exampleDbms adminUser untrimmedRequest exampleWorld
       = (Render 400 ''stories/new'' (Some msgRequired) (readValues untrimmedRequest),
          cleanupFiles (req_files untrimmedRequest) exampleWorld)
   \<and> level (readValues badLevelRequest) = ''D1''
   \<and> postStories exampleDbms adminUser badLevelRequest exampleWorld
       = (Render 400 ''stories/new'' (Some msgLevel) (readValues badLevelRequest),
          cleanupFiles (req_files badLevelRequest) exampleWorld)
   \<and> validateQuestions (parseStoryQuestions (req_body badIndexRequest) (req_files badIndexRequest)) = Some msgCorrect
   \<and> postStories exampleDbms adminUser badIndexRequest exampleWorld
       = (Render 400 ''stories/new'' (Some msgCorrect) (readValues badIndexRequest),
          cleanupFiles (req_files badIndexRequest) exampleWorld)"
proof -
  have u1: "upload_error untrimmedRequest = None" by code_simp
  have u2: "upload_error badLevelRequest = None" by code_simp
  have u3: "upload_error badIndexRequest = None" by code_simp
  have a: "summary (readValues untrimmedRequest) = []" by code_simp
  have b: "title (readValues badLevelRequest) \<noteq> [] \<and> summary (readValues badLevelRequest) \<noteq> []
            \<and> body (readValues badLevelRequest) \<noteq> [] \<and> level (readValues badLevelRequest) \<notin> set STORY_LEVELS"
    by code_simp
  have b': "level (readValues badLevelRequest) = ''D1''" by code_simp
  have c: "title (readValues badIndexRequest) \<noteq> [] \<and> summary (readValues badIndexRequest) \<noteq> []
            \<and> body (readValues badIndexRequest) \<noteq> [] \<and> level (readValues badIndexRequest) \<in> set STORY_LEVELS
            \<and> validateQuestions (parseStoryQuestions (req_body badIndexRequest) (req_files badIndexRequest)) = Some msgCorrect"
    by code_simp
  note t1 = story_form_rerendered[OF u1, of exampleDbms adminUser exampleWorld, THEN conjunct1, rule_format]
  note t2 = story_form_rerendered[OF u2, of exampleDbms adminUser exampleWorld, THEN conjunct2, THEN conjunct1, rule_format, OF b]
  note t3 = story_form_rerendered[OF u3, of exampleDbms adminUser exampleWorld, THEN conjunct2, THEN conjunct2, THEN conjunct1, rule_format, OF c]
  from t1 t2 t3 u1 a b' c show ?thesis by blast
qed

subsection \<open>A question without a correct-index field\<close>

lemma fieldSlot_correct:
  "fieldSlot f = Some (k, CorrectSlot) \<Longrightarrow> \<exists>ds. correctMatch f = Some ds \<and> parseDigits ds = k"
  by (auto simp: fieldSlot_def split: option.splits)

lemma list_all2_map_eq:
  "list_all2 (\<lambda>x y. f x = g y) xs ys \<Longrightarrow> map f xs = map g ys"
  by (induction rule: list_all2_induct) auto

lemma validateQuestions_pass:
  "prompt q \<noteq> [] \<Longrightarrow> \<not> list_ex (\<lambda>a. a = []) (answers q) \<Longrightarrow> correctIndex q = Finite 0
   \<Longrightarrow> validateQuestions (q # qs) = validateQuestions qs"
  by (simp add: isNaN_def numLess_def numGreater_def)

lemma saved_correct_indices:
  assumes "saveStory sv vals aid d = Inr (sid, d')"
  shows "\<exists>qrows. tbl_questions d' = tbl_questions d @ qrows
           \<and> map correct_index qrows = map correctIndex (questions vals)"
proof -
  from saveStory_Inr[OF assms] obtain srow qrows where
    d': "d' = d\<lparr>tbl_stories := tbl_stories d @ [srow], tbl_questions := tbl_questions d @ qrows,
                  next_story_id := Suc (next_story_id d),
                  next_question_id := next_question_id d + length (questions vals)\<rparr>"
    and rows: "list_all2 (\<lambda>r q. q_story_id r = sid \<and> q_author_id r = aid \<and> q_prompt r = prompt q
                        \<and> [answer_a r, answer_b r, answer_c r, answer_d r] = take 4 (answers q)
                        \<and> correct_index r = correctIndex q \<and> audio_path r = audioPathOf q) qrows (questions vals)"
    by blast
  from rows have "list_all2 (\<lambda>r q. correct_index r = correctIndex q) qrows (questions vals)"
    by (rule list_all2_mono) simp
  then have "map correct_index qrows = map correctIndex (questions vals)"
    by (rule list_all2_map_eq)
  with d' show ?thesis by simp
qed

text \<open>
  Claim C10. A reconstructed question at an index for which the body has no
  \<open>questions[i][correctIndex]\<close> field keeps the default correct index 0. A question with a
  prompt, four answers and correct index 0 passes its round of the validation loop. The
  loop ends with the correct-index message exactly when the first question that fails has
  a prompt and four answers and a correct index that is NaN or outside 0..3. When the
  submission is saved, the correct indices of the new question rows are those of the
  reconstructed questions, so such a question is persisted with correct index 0.
\<close>

theorem missing_correct_index_defaults:
  "(\<forall>k q. (k, q) \<in> set (sortedEntries b fs)
          \<and> (\<forall>fv \<in> set b. \<forall>ds. correctMatch (fst fv) = Some ds \<longrightarrow> parseDigits ds \<noteq> k)
        \<longrightarrow> correctIndex q = Finite 0)
   \<and> (\<forall>(q :: question) qs. prompt q \<noteq> [] \<and> \<not> list_ex (\<lambda>a. a = []) (answers q) \<and> correctIndex q = Finite 0
        \<longrightarrow> validateQuestions (q # qs) = validateQuestions qs)
   \<and> (\<forall>qs. validateQuestions qs = Some msgCorrect \<longleftrightarrow>
         (\<exists>qs1 q qs2. qs = qs1 @ q # qs2 \<and> validateQuestions qs1 = None
            \<and> prompt q \<noteq> [] \<and> \<not> list_ex (\<lambda>a. a = []) (answers q)
            \<and> (isNaN (correctIndex q) \<or> numLess (correctIndex q) 0 \<or> numGreater (correctIndex q) 3)))
   \<and> (\<forall>sid d'. upload_error req = None
          \<and> title (readValues req) \<noteq> [] \<and> summary (readValues req) \<noteq> [] \<and> body (readValues req) \<noteq> []
          \<and> level (readValues req) \<in> set STORY_LEVELS
          \<and> validateQuestions (parseStoryQuestions (req_body req) (req_files req)) = None
          \<and> saveStory sv (readValues req) (su_id u) (db w) = Inr (sid, d')
        \<longrightarrow> postStories sv u req w = (Redirect (''/story/'' @ showNat sid), w\<lparr>db := d'\<rparr>)
           \<and> (\<exists>qrows. tbl_questions d' = tbl_questions (db w) @ qrows
                 \<and> map correct_index qrows
                     = map correctIndex (parseStoryQuestions (req_body req) (req_files req))))"
proof (intro conjI allI impI)
  fix k q
  assume a: "(k, q) \<in> set (sortedEntries b fs)
          \<and> (\<forall>fv \<in> set b. \<forall>ds. correctMatch (fst fv) = Some ds \<longrightarrow> parseDigits ds \<noteq> k)"
  then have m: "(k, q) \<in> set (questionMap b fs)" by (simp add: sortedEntries_set)
  have "\<forall>fv \<in> set b. fieldSlot (fst fv) \<noteq> Some (k, CorrectSlot)"
  proof
    fix fv assume "fv \<in> set b"
    with a have "\<forall>ds. correctMatch (fst fv) = Some ds \<longrightarrow> parseDigits ds \<noteq> k" by blast
    then show "fieldSlot (fst fv) \<noteq> Some (k, CorrectSlot)"
      using fieldSlot_correct by blast
  qed
  with m show "correctIndex q = Finite 0" by (rule correct_default)
next
  fix q :: question and qs
  assume "prompt q \<noteq> [] \<and> \<not> list_ex (\<lambda>a. a = []) (answers q) \<and> correctIndex q = Finite 0"
  then have "prompt q \<noteq> []" "\<not> list_ex (\<lambda>a. a = []) (answers q)" "correctIndex q = Finite 0"
    by simp_all
  then show "validateQuestions (q # qs) = validateQuestions qs"
    by (rule validateQuestions_pass)
next
  fix qs
  show "validateQuestions qs = Some msgCorrect \<longleftrightarrow>
         (\<exists>qs1 q qs2. qs = qs1 @ q # qs2 \<and> validateQuestions qs1 = None
            \<and> prompt q \<noteq> [] \<and> \<not> list_ex (\<lambda>a. a = []) (answers q)
            \<and> (isNaN (correctIndex q) \<or> numLess (correctIndex q) 0 \<or> numGreater (correctIndex q) 3))"
    by (rule validateQuestions_correct_iff)
next
  fix sid d'
  assume a: "upload_error req = None
          \<and> title (readValues req) \<noteq> [] \<and> summary (readValues req) \<noteq> [] \<and> body (readValues req) \<noteq> []
          \<and> level (readValues req) \<in> set STORY_LEVELS
          \<and> validateQuestions (parseStoryQuestions (req_body req) (req_files req)) = None
          \<and> saveStory sv (readValues req) (su_id u) (db w) = Inr (sid, d')"
  have q: "questions (readValues req) = parseStoryQuestions (req_body req) (req_files req)"
    by (simp add: readValues_def)
  from a have s: "saveStory sv (readValues req) (su_id u) (db w) = Inr (sid, d')" by simp
  from a q have "postStories sv u req w =
       (case saveStory sv (readValues req) (su_id u) (db w) of
          Inr (storyId, d') \<Rightarrow> (Redirect (''/story/'' @ showNat storyId), w\<lparr>db := d'\<rparr>)
        | Inl _ \<Rightarrow> (renderForm 500 msgUnexpected (readValues req), cleanupFiles (req_files req) w))"
    by (intro postStories_valid) simp_all
  with s show "postStories sv u req w = (Redirect (''/story/'' @ showNat sid), w\<lparr>db := d'\<rparr>)" by simp
  from saved_correct_indices[OF s] q
  show "\<exists>qrows. tbl_questions d' = tbl_questions (db w) @ qrows
                 \<and> map correct_index qrows
                     = map correctIndex (parseStoryQuestions (req_body req) (req_files req))"
    by simp
qed

theorem missing_correct_index_defaults_witness:
  "map fst (sortedEntries (req_body noIndexRequest) (req_files noIndexRequest)) = [0]
   \<and> list_all (\<lambda>fv. correctMatch (fst fv) = None) (req_body noIndexRequest)
   \<and> map correctIndex (parseStoryQuestions (req_body noIndexRequest) (req_files noIndexRequest)) = [Finite 0]
   \<and> validateQuestions (parseStoryQuestions (req_body noIndexRequest) (req_files noIndexRequest)) = None
   \<and> fst (postStories exampleDbms adminUser noIndexRequest exampleWorld) = Redirect ''/story/1''
   \<and> map correct_index (tbl_questions (db (snd (postStories exampleDbms adminUser noIndexRequest exampleWorld))))
       = [Finite 0]"
proof -
  let ?b = "req_body noIndexRequest" and ?fs = "req_files noIndexRequest"
  have k: "map fst (sortedEntries ?b ?fs) = [0]" by code_simp
  have n: "list_all (\<lambda>fv. correctMatch (fst fv) = None) ?b" by code_simp
  then have n': "\<forall>fv \<in> set ?b. \<forall>ds. correctMatch (fst fv) = Some ds \<longrightarrow> parseDigits ds \<noteq> 0"
    by (simp add: list_all_iff)
  have one: "length (sortedEntries ?b ?fs) = 1" by code_simp
  have p: "parseStoryQuestions ?b ?fs = map snd (sortedEntries ?b ?fs)" by code_simp
  obtain q where se: "sortedEntries ?b ?fs = [(0, q)]"
    using k one by (cases "sortedEntries ?b ?fs") auto
  then have "(0, q) \<in> set (sortedEntries ?b ?fs)" by simp
  with n' have c: "correctIndex q = Finite 0"
    using missing_correct_index_defaults[where b = ?b and fs = ?fs, THEN conjunct1, rule_format, of 0 q]
    by blast
  have ci: "map correctIndex (parseStoryQuestions ?b ?fs) = [Finite 0]"
    using p se c by simp
  have v: "validateQuestions (parseStoryQuestions ?b ?fs) = None" by code_simp
  have h: "upload_error noIndexRequest = None
          \<and> title (readValues noIndexRequest) \<noteq> [] \<and> summary (readValues noIndexRequest) \<noteq> []
          \<and> body (readValues noIndexRequest) \<noteq> [] \<and> level (readValues noIndexRequest) \<in> set STORY_LEVELS"
    by code_simp
  have e: "tbl_questions (db exampleWorld) = [] \<and> showNat (Suc 0) = ''1''" by code_simp
  have "case saveStory exampleDbms (readValues noIndexRequest) (su_id adminUser) (db exampleWorld) of
          Inl _ \<Rightarrow> False | Inr (sid, _) \<Rightarrow> sid = 1" by code_simp
  then obtain d' where s: "saveStory exampleDbms (readValues noIndexRequest) (su_id adminUser) (db exampleWorld) = Inr (1, d')"
    by (auto split: sum.splits)
  from missing_correct_index_defaults[where req = noIndexRequest and sv = exampleDbms and u = adminUser
      and w = exampleWorld, THEN conjunct2, THEN conjunct2, THEN conjunct2, rule_format, of 1 d'] h v s
  obtain qrows where
    r: "postStories exampleDbms adminUser noIndexRequest exampleWorld = (Redirect (''/story/'' @ showNat 1), exampleWorld\<lparr>db := d'\<rparr>)"
    and t: "tbl_questions d' = tbl_questions (db exampleWorld) @ qrows"
    and m: "map correct_index qrows = map correctIndex (parseStoryQuestions ?b ?fs)"
    by blast
  show ?thesis using k n ci v by (simp add: r t m e)
qed

subsection \<open>Blank rows\<close>

lemma map_of_filter_fst:
  "map_of (filter (\<lambda>fv. P (fst fv)) b) k = (if P k then map_of b k else None)"
  by (induction b) auto

lemma fieldOr_filter:
  "fieldIndex name = None \<Longrightarrow>
   fieldOr (filter (\<lambda>fv. fieldIndex (fst fv) \<noteq> Some i) b) name = fieldOr b name"
  by (simp add: fieldOr_def map_of_filter_fst[where P = "\<lambda>x. fieldIndex x \<noteq> Some i"])

lemma story_field_names:
  "fieldIndex ''title'' = None" "fieldIndex ''level'' = None"
  "fieldIndex ''summary'' = None" "fieldIndex ''body'' = None"
  by code_simp+

lemma postStories_cong:
  assumes "upload_error req' = upload_error req" "req_files req' = req_files req"
    and "readValues req' = readValues req"
  shows "postStories sv u req' w = postStories sv u req w"
  by (simp only: postStories_def assms)

text \<open>
  Claim C5. The questions that \<open>parseStoryQuestions\<close> returns are exactly the
  reconstructed candidates with a non-empty prompt or at least one non-empty answer. A
  candidate whose prompt and four answers are all empty is not among them, and the result
  is the same as if no body field of its index had been sent. So is the whole outcome of
  the handler, response and state: the blank row causes no validation error and no
  question row.
\<close>

theorem blank_rows_dropped:
  "(q \<in> set (parseStoryQuestions b fs)
      \<longleftrightarrow> (\<exists>k. (k, q) \<in> set (sortedEntries b fs)) \<and> (prompt q \<noteq> [] \<or> (\<exists>a \<in> set (answers q). a \<noteq> [])))
   \<and> ((i, p) \<in> set (sortedEntries b fs) \<and> prompt p = [] \<and> list_all (\<lambda>a. a = []) (answers p)
        \<longrightarrow> p \<notin> set (parseStoryQuestions b fs)
          \<and> parseStoryQuestions (filter (\<lambda>fv. fieldIndex (fst fv) \<noteq> Some i) b) fs = parseStoryQuestions b fs)
   \<and> ((i, p) \<in> set (sortedEntries (req_body req) (req_files req)) \<and> prompt p = []
         \<and> list_all (\<lambda>a. a = []) (answers p)
        \<longrightarrow> postStories sv u (req\<lparr>req_body := filter (\<lambda>fv. fieldIndex (fst fv) \<noteq> Some i) (req_body req)\<rparr>) w
              = postStories sv u req w)"
proof (intro conjI impI)
  show "q \<in> set (parseStoryQuestions b fs)
      \<longleftrightarrow> (\<exists>k. (k, q) \<in> set (sortedEntries b fs)) \<and> (prompt q \<noteq> [] \<or> (\<exists>a \<in> set (answers q). a \<noteq> []))"
    by (simp add: parse_subset sortedEntries_set hasContent_def list_ex_iff)
next
  assume a: "(i, p) \<in> set (sortedEntries b fs) \<and> prompt p = [] \<and> list_all (\<lambda>a. a = []) (answers p)"
  then have nc: "\<not> hasContent p" by (auto simp: hasContent_def list_ex_iff list_all_iff)
  then show "p \<notin> set (parseStoryQuestions b fs)" by (simp add: parse_subset)
  from a have "(i, p) \<in> set (questionMap b fs)" by (simp add: sortedEntries_set)
  then show "parseStoryQuestions (filter (\<lambda>fv. fieldIndex (fst fv) \<noteq> Some i) b) fs = parseStoryQuestions b fs"
    using nc by (rule drop_blank_fields)
next
  assume a: "(i, p) \<in> set (sortedEntries (req_body req) (req_files req)) \<and> prompt p = []
         \<and> list_all (\<lambda>a. a = []) (answers p)"
  then have nc: "\<not> hasContent p" by (auto simp: hasContent_def list_ex_iff list_all_iff)
  from a have "(i, p) \<in> set (questionMap (req_body req) (req_files req))" by (simp add: sortedEntries_set)
  then have e: "parseStoryQuestions (filter (\<lambda>fv. fieldIndex (fst fv) \<noteq> Some i) (req_body req)) (req_files req)
                  = parseStoryQuestions (req_body req) (req_files req)"
    using nc by (rule drop_blank_fields)
  have "readValues (req\<lparr>req_body := filter (\<lambda>fv. fieldIndex (fst fv) \<noteq> Some i) (req_body req)\<rparr>) = readValues req"
    by (simp add: readValues_def e fieldOr_filter story_field_names)
  then show "postStories sv u (req\<lparr>req_body := filter (\<lambda>fv. fieldIndex (fst fv) \<noteq> Some i) (req_body req)\<rparr>) w
              = postStories sv u req w"
    by (intro postStories_cong) simp_all
qed

theorem blank_rows_dropped_witness:
  "map fst (sortedEntries (req_body blankRowRequest) (req_files blankRowRequest)) = [0]
   \<and> parseStoryQuestions (req_body blankRowRequest) (req_files blankRowRequest) = []
   \<and> filter (\<lambda>fv. fieldIndex (fst fv) \<noteq> Some 0) (req_body blankRowRequest) = storyFields
   \<and> postStories exampleDbms adminUser (formRequest storyFields) exampleWorld
       = postStories exampleDbms adminUser blankRowRequest exampleWorld
   \<and> fst (postStories exampleDbms adminUser blankRowRequest exampleWorld) = Redirect ''/story/1''
   \<and> tbl_questions (db (snd (postStories exampleDbms adminUser blankRowRequest exampleWorld))) = []"
proof -
  let ?b = "req_body blankRowRequest" and ?fs = "req_files blankRowRequest"
  have k: "map fst (sortedEntries ?b ?fs) = [0]" by code_simp
  have one: "length (sortedEntries ?b ?fs) = 1" by code_simp
  have bl: "list_all (\<lambda>e. prompt (snd e) = [] \<and> list_all (\<lambda>a. a = []) (answers (snd e))) (sortedEntries ?b ?fs)"
    by code_simp
  obtain p where se: "sortedEntries ?b ?fs = [(0, p)]"
    using k one by (cases "sortedEntries ?b ?fs") auto
  with bl have h: "(0, p) \<in> set (sortedEntries ?b ?fs) \<and> prompt p = [] \<and> list_all (\<lambda>a. a = []) (answers p)"
    by simp
  have f: "filter (\<lambda>fv. fieldIndex (fst fv) \<noteq> Some 0) ?b = storyFields" by code_simp
  have r: "blankRowRequest\<lparr>req_body := storyFields\<rparr> = formRequest storyFields"
    by (simp add: blankRowRequest_def formRequest_def)
  have e: "parseStoryQuestions ?b ?fs = []" by code_simp
  have x: "fst (postStories exampleDbms adminUser blankRowRequest exampleWorld) = Redirect ''/story/1''
     \<and> tbl_questions (db (snd (postStories exampleDbms adminUser blankRowRequest exampleWorld))) = []"
    by code_simp
  from blank_rows_dropped[where req = blankRowRequest and i = 0 and p = p and sv = exampleDbms
      and u = adminUser and w = exampleWorld, THEN conjunct2, THEN conjunct2, rule_format, OF h]
  have "postStories exampleDbms adminUser (formRequest storyFields) exampleWorld
       = postStories exampleDbms adminUser blankRowRequest exampleWorld"
    by (simp add: f r)
  with k e f x show ?thesis by simp
qed

subsection \<open>Renumbering the indices\<close>

lemma sameQuestion_empty: "sameQuestion emptyQuestion emptyQuestion"
  by (simp add: sameQuestion_def emptyQuestion_def)

lemma sameQuestion_slotUpdate:
  "sameQuestion q q' \<Longrightarrow> sameQuestion (slotUpdate s v q) (slotUpdate s v q')"
  by (cases s) (auto simp: sameQuestion_def)

lemma sameQuestion_file:
  "sameQuestion q q' \<Longrightarrow> filename f' = filename f \<Longrightarrow> path f' = path f
   \<Longrightarrow> sameQuestion (q\<lparr>file_q := Some f\<rparr>) (q'\<lparr>file_q := Some f'\<rparr>)"
  by (simp add: sameQuestion_def)

lemma sameQuestion_hasContent: "sameQuestion q q' \<Longrightarrow> hasContent q' = hasContent q"
  by (simp add: sameQuestion_def hasContent_def)

lemma renumbered_upsert:
  assumes "inj g" and "renumbered g M M'" and "\<And>q q'. sameQuestion q q' \<Longrightarrow> sameQuestion (f q) (f' q')"
  shows "renumbered g (upsert i f M) (upsert (g i) f' M')"
  unfolding renumbered_def
proof (intro conjI allI impI)
  fix k
  show "rel_option sameQuestion (upsert i f M k) (upsert (g i) f' M' (g k))"
  proof (cases "k = i")
    case True
    have r: "rel_option sameQuestion (M i) (M' (g i))"
      using assms(2) by (simp add: renumbered_def)
    have "sameQuestion (case M i of None \<Rightarrow> emptyQuestion | Some q \<Rightarrow> q)
                       (case M' (g i) of None \<Rightarrow> emptyQuestion | Some q \<Rightarrow> q)"
      using r by (cases "M i"; cases "M' (g i)") (simp_all add: sameQuestion_empty)
    then have "sameQuestion (f (case M i of None \<Rightarrow> emptyQuestion | Some q \<Rightarrow> q))
                       (f' (case M' (g i) of None \<Rightarrow> emptyQuestion | Some q \<Rightarrow> q))"
      by (rule assms(3))
    with True show ?thesis by (simp add: upsert_def)
  next
    case False
    then have "g k \<noteq> g i" using assms(1) by (simp add: inj_eq)
    with False assms(2) show ?thesis by (simp add: upsert_def renumbered_def)
  qed
next
  fix j assume "j \<notin> range g"
  then have "j \<noteq> g i" by blast
  moreover have "M' j = None" using assms(2) \<open>j \<notin> range g\<close> by (simp add: renumbered_def)
  ultimately show "upsert (g i) f' M' j = None" by (simp add: upsert_def)
qed

lemma renumbered_bodyStep:
  assumes "inj g" and "renumbered g M M'"
    and "snd y = snd x"
    and "fieldSlot (fst y) = map_option (\<lambda>a. (g (fst a), snd a)) (fieldSlot (fst x))"
  shows "renumbered g (bodyStep x M) (bodyStep y M')"
proof (cases "fieldSlot (fst x)")
  case None
  with assms show ?thesis by (simp add: bodyStep_def)
next
  case (Some a)
  obtain i s where a: "a = (i, s)" by (cases a)
  have "renumbered g (upsert i (slotUpdate s (snd x)) M) (upsert (g i) (slotUpdate s (snd x)) M')"
    using assms(1,2) by (rule renumbered_upsert) (rule sameQuestion_slotUpdate)
  with Some a assms(3,4) show ?thesis by (simp add: bodyStep_def)
qed

lemma renumbered_fileStep:
  assumes "inj g" and "renumbered g M M'"
    and "filename f' = filename f" "path f' = path f"
    and "fileIndex f' = map_option g (fileIndex f)"
  shows "renumbered g (fileStep f M) (fileStep f' M')"
proof (cases "fileIndex f")
  case None
  with assms show ?thesis by (simp add: fileStep_def)
next
  case (Some i)
  have "renumbered g (upsert i (\<lambda>q. q\<lparr>file_q := Some f\<rparr>) M) (upsert (g i) (\<lambda>q. q\<lparr>file_q := Some f'\<rparr>) M')"
    using assms(1,2) by (rule renumbered_upsert) (simp add: sameQuestion_file assms(3,4))
  with Some assms(5) show ?thesis by (simp add: fileStep_def)
qed

lemma renumbered_fold_bodyStep:
  assumes "inj g"
    and "list_all2 (\<lambda>x y. snd y = snd x
            \<and> fieldSlot (fst y) = map_option (\<lambda>a. (g (fst a), snd a)) (fieldSlot (fst x))) b b'"
    and "renumbered g M M'"
  shows "renumbered g (fold bodyStep b M) (fold bodyStep b' M')"
  using assms(2,3)
proof (induction arbitrary: M M' rule: list_all2_induct)
  case Nil
  then show ?case by simp
next
  case (Cons x xs y ys)
  have "renumbered g (bodyStep x M) (bodyStep y M')"
    using assms(1) Cons.prems Cons.hyps(1) by (intro renumbered_bodyStep) simp_all
  then have "renumbered g (fold bodyStep xs (bodyStep x M)) (fold bodyStep ys (bodyStep y M'))"
    by (rule Cons.IH)
  then show ?case by simp
qed

lemma renumbered_fold_fileStep:
  assumes "inj g"
    and "list_all2 (\<lambda>f f'. filename f' = filename f \<and> path f' = path f
            \<and> fileIndex f' = map_option g (fileIndex f)) fs fs'"
    and "renumbered g M M'"
  shows "renumbered g (fold fileStep fs M) (fold fileStep fs' M')"
  using assms(2,3)
proof (induction arbitrary: M M' rule: list_all2_induct)
  case Nil
  then show ?case by simp
next
  case (Cons x xs y ys)
  have "renumbered g (fileStep x M) (fileStep y M')"
    using assms(1) Cons.prems Cons.hyps(1) by (intro renumbered_fileStep) simp_all
  then have "renumbered g (fold fileStep xs (fileStep x M)) (fold fileStep ys (fileStep y M'))"
    by (rule Cons.IH)
  then show ?case by simp
qed

lemma list_all2_filter_rel:
  "list_all2 P xs ys \<Longrightarrow> (\<And>x y. P x y \<Longrightarrow> Q x = Q' y) \<Longrightarrow> list_all2 P (filter Q xs) (filter Q' ys)"
  by (induction rule: list_all2_induct) auto

lemma sortedEntries_lookup:
  "n < length (sortedEntries b fs) \<Longrightarrow>
   map_of (questionMap b fs) (fst (sortedEntries b fs ! n)) = Some (snd (sortedEntries b fs ! n))"
proof -
  assume "n < length (sortedEntries b fs)"
  then have "sortedEntries b fs ! n \<in> set (questionMap b fs)"
    using sortedEntries_set nth_mem by blast
  then show ?thesis
    using in_questionMap_iff[of "fst (sortedEntries b fs ! n)" "snd (sortedEntries b fs ! n)" b fs] by simp
qed

lemma parse_renumbered:
  assumes mono: "strict_mono g"
    and body: "list_all2 (\<lambda>x y. snd y = snd x
            \<and> fieldSlot (fst y) = map_option (\<lambda>a. (g (fst a), snd a)) (fieldSlot (fst x))) b b'"
    and files: "list_all2 (\<lambda>f f'. filename f' = filename f \<and> path f' = path f
            \<and> fileIndex f' = map_option g (fileIndex f)) fs fs'"
  shows "list_all2 sameQuestion (parseStoryQuestions b fs) (parseStoryQuestions b' fs')"
proof -
  let ?M = "map_of (questionMap b fs)" and ?M' = "map_of (questionMap b' fs')"
  let ?xs = "sortedEntries b fs" and ?ys = "sortedEntries b' fs'"
  have inj: "inj g" using mono by (rule strict_mono_imp_inj_on)
  have "renumbered g (Map.empty :: nat \<rightharpoonup> question) Map.empty"
    by (simp add: renumbered_def)
  then have "renumbered g (fold bodyStep b Map.empty) (fold bodyStep b' Map.empty)"
    by (rule renumbered_fold_bodyStep[OF inj body])
  then have "renumbered g (fold fileStep fs (fold bodyStep b Map.empty)) (fold fileStep fs' (fold bodyStep b' Map.empty))"
    by (rule renumbered_fold_fileStep[OF inj files])
  then have R: "renumbered g ?M ?M'" by (simp only: map_of_questionMap)
  have dom: "dom ?M' = g ` dom ?M"
  proof (intro set_eqI iffI)
    fix j assume j: "j \<in> dom ?M'"
    then have "j \<in> range g" using R by (auto simp: renumbered_def)
    then obtain k where k: "j = g k" by blast
    have "rel_option sameQuestion (?M k) (?M' (g k))" using R by (simp add: renumbered_def)
    with j k have "k \<in> dom ?M" by (cases "?M k") auto
    with k show "j \<in> g ` dom ?M" by blast
  next
    fix j assume "j \<in> g ` dom ?M"
    then obtain k where k: "j = g k" "k \<in> dom ?M" by blast
    have "rel_option sameQuestion (?M k) (?M' (g k))" using R by (simp add: renumbered_def)
    with k show "j \<in> dom ?M'" by (cases "?M' (g k)") auto
  qed
  have keysx: "fst ` set ?xs = dom ?M" and keysy: "fst ` set ?ys = dom ?M'"
    by (simp_all add: sortedEntries_set dom_map_of_conv_image_fst)
  define ks where "ks = map fst ?xs"
  define ks' where "ks' = map fst ?ys"
  have sks: "sorted ks" and dks: "distinct ks"
    unfolding ks_def by (rule sortedEntries_sorted, rule sortedEntries_distinct)
  have sks': "sorted ks'" and dks': "distinct ks'"
    unfolding ks'_def by (rule sortedEntries_sorted, rule sortedEntries_distinct)
  have "sorted_wrt (\<lambda>x y. g x \<le> g y) ks"
    using sks
  proof (rule sorted_wrt_mono_rel[rotated])
    fix x y :: nat assume "x \<le> y"
    then show "g x \<le> g y" using mono by (simp add: strict_mono_less_eq)
  qed
  then have sx: "sorted (map g ks)" by (simp add: sorted_map)
  have dx: "distinct (map g ks)"
    using dks inj by (simp add: distinct_map inj_on_def)
  have "set (map g ks) = g ` (fst ` set ?xs)" by (simp add: ks_def image_image)
  also have "\<dots> = g ` dom ?M" by (simp only: keysx)
  also have "\<dots> = dom ?M'" by (simp only: dom)
  also have "\<dots> = set ks'" by (simp add: keysy ks'_def)
  finally have "set (map g ks) = set ks'" .
  then have "set ks' = set (map g ks)" by simp
  with sks' dks' sx dx have "ks' = map g ks"
    by (rule sorted_distinct_set_unique)
  then have keys: "map fst ?ys = map g (map fst ?xs)"
    by (simp only: ks_def ks'_def)
  have len: "length ?ys = length ?xs"
  proof -
    have "length (map fst ?ys) = length (map g (map fst ?xs))" by (simp only: keys)
    then show ?thesis by simp
  qed
  have ent: "list_all2 (\<lambda>e e'. sameQuestion (snd e) (snd e')) ?xs ?ys"
    unfolding list_all2_conv_all_nth
  proof (intro conjI allI impI)
    show "length ?xs = length ?ys" using len by simp
  next
    fix n assume n: "n < length ?xs"
    with len have n': "n < length ?ys" by simp
    have "map fst ?ys ! n = map g (map fst ?xs) ! n" by (simp only: keys)
    then have k: "fst (?ys ! n) = g (fst (?xs ! n))"
      using n n' by simp
    have "rel_option sameQuestion (?M (fst (?xs ! n))) (?M' (g (fst (?xs ! n))))"
      using R by (simp add: renumbered_def)
    then show "sameQuestion (snd (?xs ! n)) (snd (?ys ! n))"
      using sortedEntries_lookup[OF n] sortedEntries_lookup[OF n'] k by simp
  qed
  have "list_all2 (\<lambda>e e'. sameQuestion (snd e) (snd e'))
          (filter (\<lambda>e. hasContent (snd e)) ?xs) (filter (\<lambda>e. hasContent (snd e)) ?ys)"
    using ent by (rule list_all2_filter_rel) (simp add: sameQuestion_hasContent)
  then have "list_all2 sameQuestion (map snd (filter (\<lambda>e. hasContent (snd e)) ?xs))
               (map snd (filter (\<lambda>e. hasContent (snd e)) ?ys))"
    by (simp add: list_all2_map1 list_all2_map2)
  then show ?thesis
    by (simp add: parseStoryQuestions_def filter_map comp_def)
qed

subsection \<open>Order of the fields and of the result\<close>

lemma match_same_digits:
  "promptMatch f = Some x \<Longrightarrow> correctMatch f = Some y \<Longrightarrow> x = y"
  "promptMatch f = Some x \<Longrightarrow> answerMatch f = Some (y, e) \<Longrightarrow> x = y"
  "correctMatch f = Some x \<Longrightarrow> answerMatch f = Some (y, e) \<Longrightarrow> x = y"
  by (auto simp: promptMatch_def correctMatch_def answerMatch_def questionFieldMatch_def
      split: option.splits if_splits prod.splits)

lemma fieldIndex_iff:
  "fieldIndex f = Some k \<longleftrightarrow>
     (\<exists>ds. (promptMatch f = Some ds \<or> correctMatch f = Some ds \<or> (\<exists>es. answerMatch f = Some (ds, es)))
           \<and> parseDigits ds = k)"
  by (auto simp: fieldIndex_def fieldSlot_def split: option.splits dest: match_same_digits)

lemma fileIndex_iff:
  "fileIndex f = Some k \<longleftrightarrow> (\<exists>ds. audioMatch (fieldname f) = Some ds \<and> parseDigits ds = k)"
  by (auto simp: fileIndex_def)

lemma sortedEntries_keys_perm:
  assumes "mset b' = mset b" "mset fs' = mset fs"
  shows "map fst (sortedEntries b' fs') = map fst (sortedEntries b fs)"
proof -
  have "set b' = set b" "set fs' = set fs"
    using assms by (auto dest: mset_eq_setD)
  then have "set (map fst (sortedEntries b' fs')) = set (map fst (sortedEntries b fs))"
    by (simp only: sortedEntries_keys)
  then show ?thesis
    by (intro sorted_distinct_set_unique sortedEntries_sorted sortedEntries_distinct)
qed

lemma MAX_SAFE_INTEGER_power: "MAX_SAFE_INTEGER = 2 ^ 53 - 1"
  by (simp add: MAX_SAFE_INTEGER_def)

lemma safeIndices_perm:
  assumes "safeIndices b fs" "mset b' = mset b" "mset fs' = mset fs"
  shows "safeIndices b' fs'"
proof -
  have "set b' = set b" "set fs' = set fs"
    using assms(2,3) by (auto dest: mset_eq_setD)
  with assms(1) show ?thesis by (simp add: safeIndices_def list_all_iff)
qed

lemma safeIndices_filter:
  "safeIndices b fs \<Longrightarrow> safeIndices (filter P b) (filter Q fs)"
  by (simp add: safeIndices_def list_all_iff)

lemma safeIndices_keys:
  assumes "safeIndices b fs"
  shows "\<forall>k \<in> set (map fst (sortedEntries b fs)). k \<le> MAX_SAFE_INTEGER"
proof
  fix k assume "k \<in> set (map fst (sortedEntries b fs))"
  then have "k \<in> {k. \<exists>fv \<in> set b. fieldIndex (fst fv) = Some k} \<union> {k. \<exists>f \<in> set fs. fileIndex f = Some k}"
    by (simp only: sortedEntries_keys)
  then show "k \<le> MAX_SAFE_INTEGER"
    using assms by (auto simp: safeIndices_def list_all_iff isSafeIndex_def split: option.splits)
qed

text \<open>
  Claim C3 says that the result does not depend on the order in which the fields appear.
  Two field names may denote the same index (\<open>questions[0][prompt]\<close> and
  \<open>questions[00][prompt]\<close>, both within the range of exact indices); both assign to the same
  prompt, the later one wins, and the result changes with their order.
\<close>

theorem field_order_matters:
  "safeIndices aliasFields []
   \<and> parseStoryQuestions (rev aliasFields) [] \<noteq> parseStoryQuestions aliasFields []
   \<and> map prompt (parseStoryQuestions aliasFields []) = [''b'']
   \<and> map prompt (parseStoryQuestions (rev aliasFields) []) = [''a'']"
proof -
  have "map (\<lambda>fv. fieldIndex (fst fv)) aliasFields = [Some 0, Some 0]" by code_simp
  then have s: "safeIndices aliasFields []"
    by (simp add: safeIndices_def list_all_iff isSafeIndex_def aliasFields_def)
  have "parseStoryQuestions (rev aliasFields) [] \<noteq> parseStoryQuestions aliasFields []
   \<and> map prompt (parseStoryQuestions aliasFields []) = [''b'']
   \<and> map prompt (parseStoryQuestions (rev aliasFields) []) = [''a'']"
    by code_simp
  with s show ?thesis by simp
qed

text \<open>
  Claim C3, amended, for a body and files whose indices are at most
  \<open>Number.MAX_SAFE_INTEGER\<close> (\<open>safeIndices\<close>), the range in which the key that the program
  computes is the index that the digits denote; nothing is stated about larger indices.
  The candidates come in ascending order of their index, one per index, and the indices
  are exactly those that a body field matching one of the three patterns or a file
  matching the audio pattern names; \<open>parseStoryQuestions\<close> returns those of them with
  content. The sequence of indices does not depend on the order of the fields and files.
  When no two body fields address the same slot of the same index and no two files the
  same index, the whole result does not depend on that order; otherwise it may.
  Renumbering the indices by a strictly increasing function that keeps them within the
  range leaves the result as it is but for the field name stored with a file, so gaps do
  not matter. Fields and files that match no pattern, among them all with a non-numeric
  index, can be removed without changing the result. Reordering and removing fields keep
  a body within the range.
\<close>

theorem questions_ordered_by_index:
  assumes "safeIndices b fs"
  shows "sorted (map fst (sortedEntries b fs)) \<and> distinct (map fst (sortedEntries b fs))
   \<and> set (map fst (sortedEntries b fs))
       = {k. \<exists>fv \<in> set b. fieldIndex (fst fv) = Some k} \<union> {k. \<exists>f \<in> set fs. fileIndex f = Some k}
   \<and> (\<forall>k \<in> set (map fst (sortedEntries b fs)). k \<le> MAX_SAFE_INTEGER)
   \<and> parseStoryQuestions b fs = filter hasContent (map snd (sortedEntries b fs))
   \<and> (\<forall>f k. k \<le> MAX_SAFE_INTEGER \<longrightarrow>
         (fieldIndex f = Some k \<longleftrightarrow>
            (\<exists>ds. (promptMatch f = Some ds \<or> correctMatch f = Some ds \<or> (\<exists>es. answerMatch f = Some (ds, es)))
                  \<and> parseDigits ds = k)))
   \<and> (\<forall>f k. k \<le> MAX_SAFE_INTEGER \<longrightarrow>
         (fileIndex f = Some k \<longleftrightarrow> (\<exists>ds. audioMatch (fieldname f) = Some ds \<and> parseDigits ds = k)))
   \<and> (mset b' = mset b \<and> mset fs' = mset fs
        \<longrightarrow> safeIndices b' fs' \<and> map fst (sortedEntries b' fs') = map fst (sortedEntries b fs))
   \<and> (mset b' = mset b \<and> mset fs' = mset fs \<and> distinct (bodySlots b) \<and> distinct (fileSlots fs)
        \<longrightarrow> parseStoryQuestions b' fs' = parseStoryQuestions b fs)
   \<and> (strict_mono g \<and> safeIndices c cs
        \<and> list_all2 (\<lambda>x y. snd y = snd x
              \<and> fieldSlot (fst y) = map_option (\<lambda>a. (g (fst a), snd a)) (fieldSlot (fst x))) b c
        \<and> list_all2 (\<lambda>f f'. filename f' = filename f \<and> path f' = path f
              \<and> fileIndex f' = map_option g (fileIndex f)) fs cs
        \<longrightarrow> list_all2 sameQuestion (parseStoryQuestions b fs) (parseStoryQuestions c cs))
   \<and> safeIndices (filter (\<lambda>fv. fieldIndex (fst fv) \<noteq> None) b) (filter (\<lambda>f. fileIndex f \<noteq> None) fs)
   \<and> parseStoryQuestions (filter (\<lambda>fv. fieldIndex (fst fv) \<noteq> None) b) (filter (\<lambda>f. fileIndex f \<noteq> None) fs)
       = parseStoryQuestions b fs"
proof (intro conjI allI impI)
  show "sorted (map fst (sortedEntries b fs))" by (rule sortedEntries_sorted)
  show "distinct (map fst (sortedEntries b fs))" by (rule sortedEntries_distinct)
  show "set (map fst (sortedEntries b fs))
       = {k. \<exists>fv \<in> set b. fieldIndex (fst fv) = Some k} \<union> {k. \<exists>f \<in> set fs. fileIndex f = Some k}"
    by (rule sortedEntries_keys)
  show "\<forall>k \<in> set (map fst (sortedEntries b fs)). k \<le> MAX_SAFE_INTEGER"
    using assms by (rule safeIndices_keys)
  show "parseStoryQuestions b fs = filter hasContent (map snd (sortedEntries b fs))"
    by (simp only: parseStoryQuestions_def)
  show "\<And>f k. fieldIndex f = Some k \<longleftrightarrow>
         (\<exists>ds. (promptMatch f = Some ds \<or> correctMatch f = Some ds \<or> (\<exists>es. answerMatch f = Some (ds, es)))
               \<and> parseDigits ds = k)"
    by (rule fieldIndex_iff)
  show "\<And>f k. fileIndex f = Some k \<longleftrightarrow> (\<exists>ds. audioMatch (fieldname f) = Some ds \<and> parseDigits ds = k)"
    by (rule fileIndex_iff)
  show "safeIndices (filter (\<lambda>fv. fieldIndex (fst fv) \<noteq> None) b) (filter (\<lambda>f. fileIndex f \<noteq> None) fs)"
    using assms by (rule safeIndices_filter)
  show "parseStoryQuestions (filter (\<lambda>fv. fieldIndex (fst fv) \<noteq> None) b) (filter (\<lambda>f. fileIndex f \<noteq> None) fs)
       = parseStoryQuestions b fs"
    by (rule parse_matching_only)
next
  assume "mset b' = mset b \<and> mset fs' = mset fs"
  then show "safeIndices b' fs'"
    by (intro safeIndices_perm[OF assms]) simp_all
next
  assume "mset b' = mset b \<and> mset fs' = mset fs"
  then show "map fst (sortedEntries b' fs') = map fst (sortedEntries b fs)"
    by (intro sortedEntries_keys_perm) simp_all
next
  assume "mset b' = mset b \<and> mset fs' = mset fs \<and> distinct (bodySlots b) \<and> distinct (fileSlots fs)"
  then show "parseStoryQuestions b' fs' = parseStoryQuestions b fs"
    by (intro parse_perm) simp_all
next
  assume a: "strict_mono g \<and> safeIndices c cs
        \<and> list_all2 (\<lambda>x y. snd y = snd x
              \<and> fieldSlot (fst y) = map_option (\<lambda>a. (g (fst a), snd a)) (fieldSlot (fst x))) b c
        \<and> list_all2 (\<lambda>f f'. filename f' = filename f \<and> path f' = path f
              \<and> fileIndex f' = map_option g (fileIndex f)) fs cs"
  then have m: "strict_mono g"
    and b: "list_all2 (\<lambda>x y. snd y = snd x
              \<and> fieldSlot (fst y) = map_option (\<lambda>a. (g (fst a), snd a)) (fieldSlot (fst x))) b c"
    and f: "list_all2 (\<lambda>f f'. filename f' = filename f \<and> path f' = path f
              \<and> fileIndex f' = map_option g (fileIndex f)) fs cs"
    by simp_all
  show "list_all2 sameQuestion (parseStoryQuestions b fs) (parseStoryQuestions c cs)"
    by (rule parse_renumbered[OF m b f])
qed

theorem questions_ordered_by_index_witness:
  "safeIndices scatteredFields [] \<and> safeIndices compactFields []
   \<and> map fst (sortedEntries scatteredFields []) = [0, 2, 5]
   \<and> map prompt (parseStoryQuestions scatteredFields []) = [''zero'', ''two'', ''five'']
   \<and> fieldIndex ''questions[x][prompt]'' = None \<and> fieldIndex ''title'' = None
   \<and> mset (rev scatteredFields) = mset scatteredFields \<and> distinct (bodySlots scatteredFields)
   \<and> parseStoryQuestions (rev scatteredFields) [] = parseStoryQuestions scatteredFields []
   \<and> strict_mono gapMap
   \<and> list_all2 sameQuestion (parseStoryQuestions compactFields []) (parseStoryQuestions scatteredFields [])
   \<and> map prompt (parseStoryQuestions compactFields []) = [''zero'', ''two'', ''five'']"
proof -
  have i: "map (\<lambda>fv. fieldIndex (fst fv)) scatteredFields = [Some 2, None, Some 0, None, Some 5]"
    by code_simp
  have i': "map (\<lambda>fv. fieldIndex (fst fv)) compactFields = [Some 1, None, Some 0, None, Some 2]"
    by code_simp
  have s: "safeIndices scatteredFields []"
    using i by (simp add: safeIndices_def list_all_iff isSafeIndex_def MAX_SAFE_INTEGER_def scatteredFields_def)
  have s': "safeIndices compactFields []"
    using i' by (simp add: safeIndices_def list_all_iff isSafeIndex_def MAX_SAFE_INTEGER_def compactFields_def)
  have k: "map fst (sortedEntries scatteredFields []) = [0, 2, 5]" by code_simp
  have p: "map prompt (parseStoryQuestions scatteredFields []) = [''zero'', ''two'', ''five'']" by code_simp
  have p': "map prompt (parseStoryQuestions compactFields []) = [''zero'', ''two'', ''five'']" by code_simp
  have n: "fieldIndex ''questions[x][prompt]'' = None \<and> fieldIndex ''title'' = None" by code_simp
  have m: "mset (rev scatteredFields) = mset scatteredFields" by simp
  have d: "distinct (bodySlots scatteredFields)" by code_simp
  have fd: "distinct (fileSlots [])" by (simp add: fileSlots_def)
  have sm: "strict_mono gapMap" by (auto simp: strict_mono_def gapMap_def)
  have r: "list_all2 (\<lambda>x y. snd y = snd x
              \<and> fieldSlot (fst y) = map_option (\<lambda>a. (gapMap (fst a), snd a)) (fieldSlot (fst x)))
            compactFields scatteredFields"
    by code_simp
  have "mset (rev scatteredFields) = mset scatteredFields \<and> mset [] = mset ([] :: upload_file list)
          \<and> distinct (bodySlots scatteredFields) \<and> distinct (fileSlots [])
        \<longrightarrow> parseStoryQuestions (rev scatteredFields) [] = parseStoryQuestions scatteredFields []"
    using questions_ordered_by_index[OF s, where b' = "rev scatteredFields" and fs' = "[]"
        and g = gapMap and c = "[]" and cs = "[]"]
    by - (elim conjE, assumption)
  with m d fd have e: "parseStoryQuestions (rev scatteredFields) [] = parseStoryQuestions scatteredFields []"
    by simp
  have "strict_mono gapMap \<and> safeIndices scatteredFields []
        \<and> list_all2 (\<lambda>x y. snd y = snd x
              \<and> fieldSlot (fst y) = map_option (\<lambda>a. (gapMap (fst a), snd a)) (fieldSlot (fst x)))
            compactFields scatteredFields
        \<and> list_all2 (\<lambda>f f'. filename f' = filename f \<and> path f' = path f
              \<and> fileIndex f' = map_option gapMap (fileIndex f)) [] []
        \<longrightarrow> list_all2 sameQuestion (parseStoryQuestions compactFields []) (parseStoryQuestions scatteredFields [])"
    using questions_ordered_by_index[OF s', where c = scatteredFields and cs = "[]" and g = gapMap
        and b' = "[]" and fs' = "[]"]
    by - (elim conjE, assumption)
  with sm s r have g: "list_all2 sameQuestion (parseStoryQuestions compactFields []) (parseStoryQuestions scatteredFields [])"
    by simp
  from s s' k p p' n m d e sm g show ?thesis by blast
qed

end
